theory Spec2Isabelle
  imports Main "HOL-Library.AList"
begin

section \<open>Workflow graph (src/lib/workflowExecutor.ts, src/types/nodes.ts)\<close>

text \<open>
  JavaScript values that flow through the executor as \<^verbatim>\<open>any\<close> (handler outputs,
  callback payloads). An object is its list of properties.
\<close>

datatype jsval =
    JUndefined
  | JNull
  | JBool bool
  | JNum int
  | JStr string
  | JArr "jsval list"
  | JObj "(string \<times> jsval) list"

text \<open>
  \<^verbatim>\<open>NodeData\<close>: the fields the executor reads. Optional fields are options;
  \<^verbatim>\<open>type\<close> is the run-time string the dispatcher switches on.
\<close>

record nodeData =
  label :: string
  type_n :: string
  projectTitle :: "string option"
  projectDescription :: "string option"
  contractCode :: "string option"
  contractName :: "string option"
  compilerVersion :: "string option"
  constructorArgs :: "jsval option"
  aiPrompt :: "string option"

record node =
  id_n :: string
  data_n :: nodeData

datatype status = Idle | Running | Success | Error

record edge =
  id_e :: string
  source :: string
  target :: string
  sourceStatus :: "status option"
  targetStatus :: "status option"

text \<open>A thrown JavaScript \<^verbatim>\<open>Error\<close> object, with its \<^verbatim>\<open>message\<close>.\<close>

datatype jsError = JsError string

fun errorMessage :: "jsError \<Rightarrow> string" where
  "errorMessage (JsError m) = m"

section \<open>Topological scheduler: buildExecutionOrder\<close>

text \<open>
  A JavaScript \<^verbatim>\<open>Map\<close> iterates in insertion order and \<^verbatim>\<open>set\<close> on a present key
  keeps the key's position: an association list with \<^const>\<open>AList.update\<close>
  (replace in place, else append). \<^verbatim>\<open>get\<close> is \<^const>\<open>map_of\<close>.
\<close>

type_synonym inDegreeMap = "(string \<times> int) list"
type_synonym adjacencyMap = "(string \<times> string list) list"

text \<open>\<^verbatim>\<open>inDegree.get(k) || 0\<close>: a missing key and the number 0 both give 0.\<close>

definition getOrZero :: "inDegreeMap \<Rightarrow> string \<Rightarrow> int" where
  "getOrZero inDegree k =
     (case map_of inDegree k of None \<Rightarrow> 0 | Some d \<Rightarrow> (if d = 0 then 0 else d))"

text \<open>
  \<^verbatim>\<open>nodes.forEach(node => { inDegree.set(node.id, 0); adjacencyList.set(node.id, []) })\<close>
\<close>

definition initMaps :: "node list \<Rightarrow> inDegreeMap \<times> adjacencyMap" where
  "initMaps nodes =
     fold (\<lambda>n (inDegree, adjacencyList).
             (AList.update (id_n n) 0 inDegree, AList.update (id_n n) [] adjacencyList))
          nodes ([], [])"

text \<open>
  \<^verbatim>\<open>adjacencyList.get(edge.source)?.push(edge.target);
  inDegree.set(edge.target, (inDegree.get(edge.target) || 0) + 1)\<close>:
  the push is skipped when the source is not a key; the in-degree is set in every case.
\<close>

definition addEdge :: "edge \<Rightarrow> inDegreeMap \<times> adjacencyMap \<Rightarrow> inDegreeMap \<times> adjacencyMap" where
  "addEdge e = (\<lambda>(inDegree, adjacencyList).
     (AList.update (target e) (getOrZero inDegree (target e) + 1) inDegree,
      (case map_of adjacencyList (source e) of
         None \<Rightarrow> adjacencyList
       | Some ts \<Rightarrow> AList.update (source e) (ts @ [target e]) adjacencyList)))"

definition buildGraph :: "node list \<Rightarrow> edge list \<Rightarrow> inDegreeMap \<times> adjacencyMap" where
  "buildGraph nodes edges = fold addEdge edges (initMaps nodes)"

text \<open>
  \<^verbatim>\<open>inDegree.forEach((degree, nodeId) => { if (degree === 0) queue.push(nodeId) })\<close>
\<close>

definition seedQueue :: "inDegreeMap \<Rightarrow> string list" where
  "seedQueue inDegree = map fst (filter (\<lambda>(nodeId, degree). degree = 0) inDegree)"

text \<open>
  The body of \<^verbatim>\<open>adjacencyList.get(nodeId)?.forEach(neighbor => ...)\<close>: decrement the
  neighbour's in-degree and enqueue it when the new value is exactly 0.
\<close>

fun relax :: "string list \<Rightarrow> inDegreeMap \<times> string list \<Rightarrow> inDegreeMap \<times> string list" where
  "relax [] (inDegree, queue) = (inDegree, queue)"
| "relax (neighbor # rest) (inDegree, queue) =
     (let newDegree = getOrZero inDegree neighbor - 1;
          inDegree' = AList.update neighbor newDegree inDegree
      in relax rest (inDegree', if newDegree = 0 then queue @ [neighbor] else queue))"

definition neighbors :: "adjacencyMap \<Rightarrow> string \<Rightarrow> string list" where
  "neighbors adjacencyList nodeId =
     (case map_of adjacencyList nodeId of None \<Rightarrow> [] | Some ts \<Rightarrow> ts)"

text \<open>Number of keys whose in-degree is still positive: what is left to enqueue.\<close>

definition positive :: "inDegreeMap \<Rightarrow> nat" where
  "positive inDegree = length (filter (\<lambda>p. 0 < snd p) inDegree)"

lemma positive_update:
  "positive (AList.update k (getOrZero inDegree k - 1) inDegree)
     + (if getOrZero inDegree k - 1 = 0 then 1 else 0) \<le> positive inDegree"
proof (induction inDegree)
  case Nil
  then show ?case by (simp add: positive_def getOrZero_def)
next
  case (Cons p ps)
  show ?case
  proof (cases "fst p = k")
    case True
    then show ?thesis by (cases p) (auto simp: positive_def getOrZero_def)
  next
    case False
    with Cons show ?thesis by (cases p) (auto simp: positive_def getOrZero_def)
  qed
qed

lemma relax_measure:
  "relax ns (inDegree, queue) = (inDegree', queue') \<Longrightarrow>
     length queue' + positive inDegree' \<le> length queue + positive inDegree"
proof (induction ns arbitrary: inDegree queue)
  case Nil
  then show ?case by simp
next
  case (Cons n ns)
  let ?d = "getOrZero inDegree n - 1"
  let ?deg = "AList.update n ?d inDegree"
  let ?q = "if ?d = 0 then queue @ [n] else queue"
  from Cons.prems have "relax ns (?deg, ?q) = (inDegree', queue')"
    by (simp add: Let_def)
  from Cons.IH [OF this]
  have "length queue' + positive inDegree' \<le> length ?q + positive ?deg" .
  also have "\<dots> \<le> length queue + positive inDegree"
    using positive_update [of n inDegree] by (simp split: if_splits)
  finally show ?case .
qed

text \<open>
  \<^verbatim>\<open>while (queue.length > 0) { const nodeId = queue.shift()!; result.push(nodeId); ... }\<close>
\<close>

function kahnLoop ::
  "adjacencyMap \<Rightarrow> inDegreeMap \<Rightarrow> string list \<Rightarrow> string list \<Rightarrow> string list" where
  "kahnLoop adjacencyList inDegree [] result = result"
| "kahnLoop adjacencyList inDegree (nodeId # queue) result =
     (case relax (neighbors adjacencyList nodeId) (inDegree, queue) of
        (inDegree', queue') \<Rightarrow> kahnLoop adjacencyList inDegree' queue' (result @ [nodeId]))"
  by pat_completeness auto
termination
  apply (relation "measure (\<lambda>(adjacencyList, inDegree, queue, result).
                     length queue + positive inDegree)")
   apply simp
  apply (auto dest!: relax_measure [OF sym])
  done

text \<open>
  \<^verbatim>\<open>if (result.length !== nodes.length) throw new Error('Workflow contains a cycle. ...')\<close>
\<close>

definition cycleError :: jsError where
  "cycleError = JsError ''Workflow contains a cycle. Please check your connections.''"

definition buildExecutionOrder :: "node list \<Rightarrow> edge list \<Rightarrow> jsError + string list" where
  "buildExecutionOrder nodes edges =
     (case buildGraph nodes edges of
        (inDegree, adjacencyList) \<Rightarrow>
          (let result = kahnLoop adjacencyList inDegree (seedQueue inDegree) []
           in if length result \<noteq> length nodes then Inl cycleError else Inr result))"

section \<open>The executor: state, callbacks, handlers\<close>

text \<open>
  \<^verbatim>\<open>ExecutionContext\<close>. The three callbacks are notification sinks: a call is recorded
  as an \<open>event\<close> in the executor's trace and returns normally (callbacks that throw
  are the subject of a section of their own, after \<^verbatim>\<open>execute\<close>). \<open>hasOnEdgeUpdate\<close>
  says whether the optional \<^verbatim>\<open>onEdgeUpdate\<close> is present.
\<close>

record executionContext =
  nodes :: "node list"
  edges :: "edge list"
  selectedNetwork :: "jsval option"
  hasOnEdgeUpdate :: bool

datatype event =
    OnNodeStatus string status
  | OnEdgeUpdate "edge list"
  | OnNodeUpdate string jsval

text \<open>\<^verbatim>\<open>ExecutionResult\<close>; an absent \<^verbatim>\<open>data\<close> is \<^const>\<open>JUndefined\<close>.\<close>

record executionResult =
  success :: bool
  message :: string
  data :: jsval

text \<open>
  The fields of a \<^verbatim>\<open>WorkflowExecutor\<close> (\<^verbatim>\<open>executionData\<close>, an insertion-ordered
  \<^verbatim>\<open>Map\<close>, and \<^verbatim>\<open>stopped\<close>), the callbacks issued so far, and the state \<open>world\<close>
  of everything outside the executor (services, wallet, clock, the user).
\<close>

record 'w executor =
  executionData :: "(string \<times> jsval) list"
  stopped :: bool
  events :: "event list"
  world :: 'w

text \<open>
  What awaiting one handler amounts to: it returns a result or throws, it has called
  \<^verbatim>\<open>onNodeUpdate\<close> with the payloads \<open>updates\<close>, \<^verbatim>\<open>stop()\<close> may have been called while
  it was suspended (\<open>stopCalled\<close>), and the world has moved on. The type \<open>'e\<close> is
  that of the values thrown: \<^typ>\<open>jsError\<close>, except in the section on callbacks and
  handlers that throw anything.
\<close>

datatype 'e outcome = Returns executionResult | Throws 'e

record ('e, 'w) handlerRun =
  outcome :: "'e outcome"
  updates :: "jsval list"
  stopCalled :: bool
  worldAfter :: 'w

text \<open>
  The handlers other than \<^verbatim>\<open>executeContractInput\<close>, and \<^verbatim>\<open>generateSummary\<close>, are
  parameters of the model: they reach the compiler service, the wallet, the AI
  service or the clock, or only read what such handlers produced. Each is any
  function of what the source lets it read: the context, the execution data (through
  \<^verbatim>\<open>findPreviousData\<close>), its node and the world. \<open>feedbackDelay\<close> is the 500 ms
  \<^verbatim>\<open>setTimeout\<close> after a handler returned: it says whether \<^verbatim>\<open>stop()\<close> was called
  meanwhile.
\<close>

record ('e, 'w) environment =
  executeProjectCreate ::
    "executionContext \<Rightarrow> (string \<times> jsval) list \<Rightarrow> node \<Rightarrow> 'w \<Rightarrow> ('e, 'w) handlerRun"
  executeCompile ::
    "executionContext \<Rightarrow> (string \<times> jsval) list \<Rightarrow> node \<Rightarrow> 'w \<Rightarrow> ('e, 'w) handlerRun"
  executeGenerateABI ::
    "executionContext \<Rightarrow> (string \<times> jsval) list \<Rightarrow> node \<Rightarrow> 'w \<Rightarrow> ('e, 'w) handlerRun"
  executeGenerateBytecode ::
    "executionContext \<Rightarrow> (string \<times> jsval) list \<Rightarrow> node \<Rightarrow> 'w \<Rightarrow> ('e, 'w) handlerRun"
  executeDeploy ::
    "executionContext \<Rightarrow> (string \<times> jsval) list \<Rightarrow> node \<Rightarrow> 'w \<Rightarrow> ('e, 'w) handlerRun"
  executeAIAudit ::
    "executionContext \<Rightarrow> (string \<times> jsval) list \<Rightarrow> node \<Rightarrow> 'w \<Rightarrow> ('e, 'w) handlerRun"
  executeCompletion ::
    "executionContext \<Rightarrow> (string \<times> jsval) list \<Rightarrow> node \<Rightarrow> 'w \<Rightarrow> ('e, 'w) handlerRun"
  generateSummary :: "executionContext \<Rightarrow> (string \<times> jsval) list \<Rightarrow> 'w \<Rightarrow> string"
  feedbackDelay :: "'w \<Rightarrow> bool \<times> 'w"

text \<open>\<^verbatim>\<open>this.context.nodes.find((n) => n.id === nodeId)\<close>\<close>

definition findNode :: "executionContext \<Rightarrow> string \<Rightarrow> node option" where
  "findNode ctx nodeId = find (\<lambda>n. id_n n = nodeId) (nodes ctx)"

text \<open>
  \<^verbatim>\<open>findPreviousData\<close>: the data of the first of the \<^verbatim>\<open>executionData.entries()\<close>, in insertion
  order, whose node is found and has the wanted type; \<^verbatim>\<open>null\<close> when there is none.
\<close>

definition findPreviousData ::
  "executionContext \<Rightarrow> (string \<times> jsval) list \<Rightarrow> string \<Rightarrow> jsval" where
  "findPreviousData ctx entries nodeType =
     (case find (\<lambda>(nodeId, d).
                   case findNode ctx nodeId of
                     None \<Rightarrow> False
                   | Some node \<Rightarrow> type_n (data_n node) = nodeType) entries of
        None \<Rightarrow> JNull
      | Some (nodeId, d) \<Rightarrow> d)"

text \<open>
  \<^verbatim>\<open>updateEdgeStatus\<close>: nothing without \<^verbatim>\<open>onEdgeUpdate\<close>; else one call with every
  edge annotated, the source test first.
\<close>

definition annotateEdge :: "string \<Rightarrow> status \<Rightarrow> edge \<Rightarrow> edge" where
  "annotateEdge nodeId s e =
     (if source e = nodeId then e\<lparr>sourceStatus := Some s\<rparr>
      else if target e = nodeId then e\<lparr>targetStatus := Some s\<rparr>
      else e)"

definition updateEdgeStatus :: "executionContext \<Rightarrow> string \<Rightarrow> status \<Rightarrow> event list" where
  "updateEdgeStatus ctx nodeId s =
     (if \<not> hasOnEdgeUpdate ctx then []
      else [OnEdgeUpdate (map (annotateEdge nodeId s) (edges ctx))])"

definition emit :: "event list \<Rightarrow> 'w executor \<Rightarrow> 'w executor" where
  "emit evs st = st\<lparr>events := events st @ evs\<rparr>"

section \<open>Source checks (src/lib/contractCompiler.ts)\<close>

text \<open>
  A \<^typ>\<open>string\<close> stands for a JavaScript string whose code units are below 256, one
  \<^typ>\<open>char\<close> per code unit. \<^verbatim>\<open>\s\<close> (and what \<^verbatim>\<open>trim\<close> strips) is then tab, line
  feed, vertical tab, form feed, carriage return, space and no-break space;
  \<^verbatim>\<open>\w\<close> is \<^verbatim>\<open>[A-Za-z0-9_]\<close>.
\<close>

definition isSpace :: "char \<Rightarrow> bool" where
  "isSpace c = (of_char c \<in> {9, 10, 11, 12, 13, 32, 160 :: nat})"

definition isWord :: "char \<Rightarrow> bool" where
  "isWord c =
     (let n = (of_char c :: nat)
      in (65 \<le> n \<and> n \<le> 90) \<or> (97 \<le> n \<and> n \<le> 122) \<or> (48 \<le> n \<and> n \<le> 57) \<or> n = 95)"

text \<open>
  The regular expressions of the source, as syntax trees. \<open>Group i\<close> is the \<open>i\<close>-th
  capturing parenthesis; \<^verbatim>\<open>(?: )\<close> only groups and leaves no trace in the tree.
\<close>

datatype regex =
    Lit string
  | Space
  | Word
  | Seq regex regex
  | Alt regex regex
  | Star regex
  | Group nat regex

text \<open>\<^verbatim>\<open>a+\<close> is one \<^verbatim>\<open>a\<close> followed by a greedy \<^verbatim>\<open>a*\<close>.\<close>

definition Plus :: "regex \<Rightarrow> regex" where
  "Plus a = Seq a (Star a)"

type_synonym captures = "(nat \<times> string) list"

definition startsWith :: "string \<Rightarrow> string \<Rightarrow> bool" where
  "startsWith s p = (take (length p) s = p)"

text \<open>
  The backtracking matcher of ECMAScript, in its continuation form: \<open>rmatch r s c k\<close>
  matches \<open>r\<close> at the front of \<open>s\<close> and hands the rest of the input and the captures
  to \<open>k\<close>; a failure of \<open>k\<close> makes it try the next way of matching \<open>r\<close> (the left
  alternative before the right one, one more iteration of a star before none). An
  iteration of a star that consumes nothing is rejected.
\<close>

function rmatch ::
  "regex \<Rightarrow> string \<Rightarrow> captures \<Rightarrow> (string \<Rightarrow> captures \<Rightarrow> captures option)
     \<Rightarrow> captures option" where
  "rmatch (Lit l) s c k = (if startsWith s l then k (drop (length l) s) c else None)"
| "rmatch Space s c k =
     (case s of [] \<Rightarrow> None | x # xs \<Rightarrow> if isSpace x then k xs c else None)"
| "rmatch Word s c k =
     (case s of [] \<Rightarrow> None | x # xs \<Rightarrow> if isWord x then k xs c else None)"
| "rmatch (Seq a b) s c k = rmatch a s c (\<lambda>s' c'. rmatch b s' c' k)"
| "rmatch (Alt a b) s c k =
     (case rmatch a s c k of Some r \<Rightarrow> Some r | None \<Rightarrow> rmatch b s c k)"
| "rmatch (Star a) s c k =
     (case rmatch a s c
             (\<lambda>s' c'. if length s' < length s then rmatch (Star a) s' c' k else None) of
        Some r \<Rightarrow> Some r
      | None \<Rightarrow> k s c)"
| "rmatch (Group i a) s c k =
     rmatch a s c (\<lambda>s' c'. k s' (AList.update i (take (length s - length s') s) c'))"
  by pat_completeness auto
termination
  by (relation "measures [\<lambda>(r, s, c, k). size r, \<lambda>(r, s, c, k). length s]") auto

text \<open>
  \<^verbatim>\<open>str.match(re)\<close> without the \<^verbatim>\<open>g\<close> flag: the first start position, from the left,
  at which the expression matches; the captures of that match, or \<^verbatim>\<open>null\<close>.
\<close>

fun search :: "regex \<Rightarrow> string \<Rightarrow> captures option" where
  "search r [] = rmatch r [] [] (\<lambda>s c. Some c)"
| "search r (x # xs) =
     (case rmatch r (x # xs) [] (\<lambda>s c. Some c) of
        Some c \<Rightarrow> Some c
      | None \<Rightarrow> search r xs)"

text \<open>\<^verbatim>\<open>/contract\s+(\w+)(?:\s+is\s+|\s*\{)/\<close>\<close>

definition mainContractRegex :: regex where
  "mainContractRegex =
     Seq (Lit ''contract'') (Seq (Plus Space) (Seq (Group 1 (Plus Word))
       (Alt (Seq (Plus Space) (Seq (Lit ''is'') (Plus Space)))
            (Seq (Star Space) (Lit ''{'')))))"

text \<open>\<^verbatim>\<open>/(?:contract|interface|library)\s+(\w+)/\<close>\<close>

definition anyContractRegex :: regex where
  "anyContractRegex =
     Seq (Alt (Lit ''contract'') (Alt (Lit ''interface'') (Lit ''library'')))
       (Seq (Plus Space) (Group 1 (Plus Word)))"

text \<open>\<^verbatim>\<open>/(?:contract|interface|library)\s+\w+/\<close>\<close>

definition definitionRegex :: regex where
  "definitionRegex =
     Seq (Alt (Lit ''contract'') (Alt (Lit ''interface'') (Lit ''library'')))
       (Seq (Plus Space) (Plus Word))"

text \<open>\<^verbatim>\<open>extractContractName\<close>: \<^verbatim>\<open>contractMatch[1]\<close>, else \<^verbatim>\<open>anyContractMatch[1]\<close>, else null.\<close>

definition extractContractName :: "string \<Rightarrow> string option" where
  "extractContractName sourceCode =
     (case search mainContractRegex sourceCode of
        Some contractMatch \<Rightarrow> map_of contractMatch 1
      | None \<Rightarrow>
          (case search anyContractRegex sourceCode of
             Some anyContractMatch \<Rightarrow> map_of anyContractMatch 1
           | None \<Rightarrow> None))"

definition trim :: "string \<Rightarrow> string" where
  "trim s = rev (dropWhile isSpace (rev (dropWhile isSpace s)))"

text \<open>\<^verbatim>\<open>s.includes(p)\<close>\<close>

fun includes_s :: "string \<Rightarrow> string \<Rightarrow> bool" where
  "includes_s [] p = (p = [])"
| "includes_s (x # xs) p = (startsWith (x # xs) p \<or> includes_s xs p)"

record validation =
  valid :: bool
  message_v :: "string option"

definition validateSolidityCode :: "string \<Rightarrow> validation" where
  "validateSolidityCode sourceCode =
     (if sourceCode = [] \<or> length (trim sourceCode) = 0 then
        \<lparr>valid = False, message_v = Some ''Source code is empty''\<rparr>
      else if \<not> includes_s sourceCode ''pragma solidity'' then
        \<lparr>valid = False, message_v =
           Some ''Missing \"pragma solidity\" directive. Please specify Solidity version.''\<rparr>
      else if search definitionRegex sourceCode = None then
        \<lparr>valid = False, message_v =
           Some ''No contract, interface, or library definition found''\<rparr>
      else \<lparr>valid = True, message_v = None\<rparr>)"

section \<open>Dispatch: executeContractInput and executeNode\<close>

text \<open>
  \<^verbatim>\<open>!x\<close> on an optional string: true for \<^verbatim>\<open>undefined\<close> and for the empty string.
\<close>

definition falsy :: "string option \<Rightarrow> bool" where
  "falsy x = (case x of None \<Rightarrow> True | Some s \<Rightarrow> s = [])"

definition failure :: "string \<Rightarrow> executionResult" where
  "failure m = \<lparr>success = False, message = m, data = JUndefined\<rparr>"

text \<open>
  \<^verbatim>\<open>executeContractInput\<close>: the result, and the payloads of its \<^verbatim>\<open>onNodeUpdate\<close> calls.
\<close>

definition executeContractInput :: "node \<Rightarrow> executionResult \<times> jsval list" where
  "executeContractInput node =
     (let nodeData = data_n node in
      case contractCode nodeData of
        None \<Rightarrow> (failure ''Contract code is required'', [])
      | Some code \<Rightarrow>
          if code = [] then (failure ''Contract code is required'', [])
          else
            (let validation = validateSolidityCode code in
             if \<not> valid validation then
               (failure (if falsy (message_v validation) then ''Invalid Solidity code''
                         else the (message_v validation)), [])
             else if falsy (contractName nodeData) then
               (let extracted = extractContractName code in
                if falsy extracted then
                  (failure ''Could not extract contract name. Please specify it manually.'', [])
                else
                  (\<lparr>success = True, message = ''Contract code validated'',
                    data = JObj [(''contractCode'', JStr code),
                                 (''contractName'', JStr (the extracted))]\<rparr>,
                   [JObj [(''contractName'', JStr (the extracted))]]))
             else
               (\<lparr>success = True, message = ''Contract code validated'',
                 data = JObj [(''contractCode'', JStr code),
                              (''contractName'', JStr (the (contractName nodeData)))]\<rparr>,
                [])))"

text \<open>A handler that finishes without suspending: nothing outside can have happened.\<close>

definition settled :: "executionResult \<times> jsval list \<Rightarrow> 'w \<Rightarrow> ('e, 'w) handlerRun" where
  "settled r w =
     \<lparr>outcome = Returns (fst r), updates = snd r, stopCalled = False, worldAfter = w\<rparr>"

text \<open>The \<^verbatim>\<open>switch (nodeType)\<close> of \<^verbatim>\<open>executeNode\<close>.\<close>

definition dispatch ::
  "('e, 'w) environment \<Rightarrow> executionContext \<Rightarrow> node \<Rightarrow> 'w executor
     \<Rightarrow> ('e, 'w) handlerRun" where
  "dispatch env ctx node st =
     (let nodeType = type_n (data_n node);
          call = (\<lambda>handler. handler ctx (executionData st) node (world st))
      in if nodeType = ''projectCreate'' then call (executeProjectCreate env)
         else if nodeType = ''contractInput'' then settled (executeContractInput node) (world st)
         else if nodeType = ''compile'' then call (executeCompile env)
         else if nodeType = ''generateABI'' then call (executeGenerateABI env)
         else if nodeType = ''generateBytecode'' then call (executeGenerateBytecode env)
         else if nodeType = ''deploy'' then call (executeDeploy env)
         else if nodeType = ''aiAudit'' then call (executeAIAudit env)
         else if nodeType = ''completion'' then call (executeCompletion env)
         else settled (failure (''Unknown node type: '' @ nodeType), []) (world st))"

text \<open>
  \<^verbatim>\<open>stop()\<close>. JavaScript runs the executor to completion between two suspension
  points, so a call of \<^verbatim>\<open>stop()\<close> from outside takes effect where the executor is
  suspended: \<open>stopIf called\<close> is the stop that arrived, or not, during such a wait.
\<close>

definition stop :: "'w executor \<Rightarrow> 'w executor" where
  "stop st = st\<lparr>stopped := True\<rparr>"

definition stopIf :: "bool \<Rightarrow> 'w executor \<Rightarrow> 'w executor" where
  "stopIf called st = (if called then stop st else st)"

text \<open>
  \<^verbatim>\<open>executeNode\<close>: report \<^verbatim>\<open>running\<close>, run the handler inside \<^verbatim>\<open>try\<close>, report the
  terminal status, wait 500 ms and return the result; a throw is caught, reported as
  \<^verbatim>\<open>error\<close> and turned into a failure result, without the wait.
\<close>

definition reportEvents :: "executionContext \<Rightarrow> string \<Rightarrow> status \<Rightarrow> jsval \<Rightarrow> event list" where
  "reportEvents ctx nodeId s payload =
     OnNodeStatus nodeId s # updateEdgeStatus ctx nodeId s @ [OnNodeUpdate nodeId payload]"

definition executeNode ::
  "(jsError, 'w) environment \<Rightarrow> executionContext \<Rightarrow> node \<Rightarrow> 'w executor
     \<Rightarrow> executionResult \<times> 'w executor" where
  "executeNode env ctx node st =
     (let nodeId = id_n node;
          st1 = emit (OnNodeStatus nodeId Running # updateEdgeStatus ctx nodeId Running) st;
          run = dispatch env ctx node st1;
          st2 = stopIf (stopCalled run)
                  ((emit (map (OnNodeUpdate nodeId) (updates run)) st1)
                     \<lparr>world := worldAfter run\<rparr>)
      in case outcome run of
           Returns result \<Rightarrow>
             (let st3 = emit (if success result
                              then reportEvents ctx nodeId Success
                                     (JObj [(''output'', data result)])
                              else reportEvents ctx nodeId Error
                                     (JObj [(''error'', JStr (message result))])) st2;
                  waited = feedbackDelay env (world st3)
              in (result, stopIf (fst waited) (st3\<lparr>world := snd waited\<rparr>)))
         | Throws error \<Rightarrow>
             (failure (if errorMessage error = [] then ''Node execution failed''
                       else errorMessage error),
              emit (reportEvents ctx nodeId Error
                      (JObj [(''error'', JStr (errorMessage error))])) st2))"

section \<open>execute\<close>

text \<open>
  The \<^verbatim>\<open>for (const nodeId of executionOrder)\<close> loop. \<open>Some r\<close> is a \<^verbatim>\<open>return r\<close> from
  inside the loop, \<open>None\<close> is falling out of its end.
\<close>

fun executeLoop ::
  "(jsError, 'w) environment \<Rightarrow> executionContext \<Rightarrow> string list \<Rightarrow> 'w executor
     \<Rightarrow> executionResult option \<times> 'w executor" where
  "executeLoop env ctx [] st = (None, st)"
| "executeLoop env ctx (nodeId # rest) st =
     (if stopped st then (Some (failure ''Workflow execution stopped by user''), st)
      else case findNode ctx nodeId of
             None \<Rightarrow> executeLoop env ctx rest st
           | Some node \<Rightarrow>
               (case executeNode env ctx node st of
                  (result, st') \<Rightarrow>
                    if \<not> success result then
                      (Some (failure (''Failed at node \"'' @ label (data_n node) @ ''\": ''
                                       @ message result)), st')
                    else executeLoop env ctx rest
                           (st'\<lparr>executionData :=
                                  AList.update nodeId (data result) (executionData st')\<rparr>)))"

text \<open>
  The \<^verbatim>\<open>try\<close> block of \<^verbatim>\<open>execute\<close>, after the two resets: \<open>Inl\<close> is an exception
  leaving the block.
\<close>

definition executeBody ::
  "(jsError, 'w) environment \<Rightarrow> executionContext \<Rightarrow> 'w executor
     \<Rightarrow> (jsError + executionResult) \<times> 'w executor" where
  "executeBody env ctx st =
     (case buildExecutionOrder (nodes ctx) (edges ctx) of
        Inl error \<Rightarrow> (Inl error, st)
      | Inr executionOrder \<Rightarrow>
          if length executionOrder = 0 then
            (Inr (failure ''No nodes to execute. Please add nodes to your workflow.''), st)
          else
            (case executeLoop env ctx executionOrder st of
               (Some r, st') \<Rightarrow> (Inr r, st')
             | (None, st') \<Rightarrow>
                 (Inr \<lparr>success = True, message = ''Workflow executed successfully'',
                       data = JObj [(''summary'',
                                       JStr (generateSummary env ctx (executionData st')
                                               (world st'))),
                                    (''executionData'', JObj (executionData st'))]\<rparr>,
                  st')))"

text \<open>\<^verbatim>\<open>execute()\<close> with its two resets and its \<^verbatim>\<open>catch\<close>.\<close>

definition execute ::
  "(jsError, 'w) environment \<Rightarrow> executionContext \<Rightarrow> 'w executor \<Rightarrow> executionResult \<times> 'w executor" where
  "execute env ctx st =
     (case executeBody env ctx (st\<lparr>stopped := False, executionData := []\<rparr>) of
        (Inr r, st') \<Rightarrow> (r, st')
      | (Inl error, st') \<Rightarrow>
          (failure (if errorMessage error = [] then ''Unknown error during workflow execution''
                    else errorMessage error), st'))"

section \<open>execute, when callbacks and handlers throw anything\<close>

text \<open>
  The sections above take the three callbacks to return normally and a handler to
  throw an \<^verbatim>\<open>Error\<close> object. The source guards neither: \<^verbatim>\<open>onNodeStatus\<close> and
  \<^verbatim>\<open>updateEdgeStatus\<close> are called before the \<^verbatim>\<open>try\<close> of \<^verbatim>\<open>executeNode\<close> (lines 170-171)
  and again inside its \<^verbatim>\<open>catch\<close> block (lines 223-225), and both \<^verbatim>\<open>catch\<close> blocks read
  \<^verbatim>\<open>error.message\<close> of whatever value was thrown (lines 225, 229 and 87). This section
  embeds \<^verbatim>\<open>executeNode\<close> and \<^verbatim>\<open>execute\<close> once more with both restrictions lifted.

  A thrown value is an \<^verbatim>\<open>Error\<close> object with its message, \<^verbatim>\<open>undefined\<close> or \<^verbatim>\<open>null\<close>.
  Reading \<^verbatim>\<open>.message\<close> of \<^verbatim>\<open>undefined\<close> or \<^verbatim>\<open>null\<close> throws a \<^verbatim>\<open>TypeError\<close>, itself an
  \<^verbatim>\<open>Error\<close> object (its message is the engine's; V8's is used here).
\<close>

datatype thrown = ThrownError string | ThrownUndefined | ThrownNull

definition typeErrorMessage :: "string \<Rightarrow> string" where
  "typeErrorMessage v =
     ''Cannot read properties of '' @ v @ '' (reading '' @ [CHR 0x27] @ ''message''
       @ [CHR 0x27] @ '')''"

text \<open>\<^verbatim>\<open>error.message\<close>: \<open>Inr\<close> the message, \<open>Inl\<close> the \<^verbatim>\<open>TypeError\<close> that the read throws.\<close>

fun readMessage :: "thrown \<Rightarrow> thrown + string" where
  "readMessage (ThrownError m) = Inr m"
| "readMessage ThrownUndefined = Inl (ThrownError (typeErrorMessage ''undefined''))"
| "readMessage ThrownNull = Inl (ThrownError (typeErrorMessage ''null''))"

text \<open>
  The callbacks of the context, as one function of the call made: it returns normally
  (\<open>None\<close>) or throws, and it may change the world. \<open>callAll\<close> makes the calls of a list
  in order, up to the first that throws; every call made is recorded in the trace.
\<close>

type_synonym 'w callbacks = "event \<Rightarrow> 'w \<Rightarrow> thrown option \<times> 'w"

fun callAll ::
  "'w callbacks \<Rightarrow> event list \<Rightarrow> 'w executor \<Rightarrow> thrown option \<times> 'w executor" where
  "callAll cb [] st = (None, st)"
| "callAll cb (e # es) st =
     (case cb e (world st) of
        (None, w) \<Rightarrow> callAll cb es (st\<lparr>events := events st @ [e], world := w\<rparr>)
      | (Some t, w) \<Rightarrow> (Some t, st\<lparr>events := events st @ [e], world := w\<rparr>))"

text \<open>
  The \<^verbatim>\<open>catch\<close> block of \<^verbatim>\<open>executeNode\<close> (lines 222-231). \<open>Inl\<close> is an exception that
  leaves \<^verbatim>\<open>executeNode\<close>: one thrown by a callback of the block, or the \<^verbatim>\<open>TypeError\<close> of
  reading \<^verbatim>\<open>error.message\<close> in the argument of \<^verbatim>\<open>onNodeUpdate\<close>.
\<close>

definition catchBlock ::
  "'w callbacks \<Rightarrow> executionContext \<Rightarrow> string \<Rightarrow> thrown \<Rightarrow> 'w executor
     \<Rightarrow> (thrown + executionResult) \<times> 'w executor" where
  "catchBlock cb ctx nodeId error st =
     (case callAll cb (OnNodeStatus nodeId Error # updateEdgeStatus ctx nodeId Error) st of
        (Some t, st1) \<Rightarrow> (Inl t, st1)
      | (None, st1) \<Rightarrow>
          (case readMessage error of
             Inl typeError \<Rightarrow> (Inl typeError, st1)
           | Inr m \<Rightarrow>
               (case callAll cb [OnNodeUpdate nodeId (JObj [(''error'', JStr m)])] st1 of
                  (Some t, st2) \<Rightarrow> (Inl t, st2)
                | (None, st2) \<Rightarrow>
                    (Inr (failure (if m = [] then ''Node execution failed'' else m)), st2))))"

text \<open>
  \<^verbatim>\<open>executeNode\<close>. The two calls before the \<^verbatim>\<open>try\<close> are not guarded. Inside the \<^verbatim>\<open>try\<close>,
  a handler calls \<^verbatim>\<open>onNodeUpdate\<close> as its last action before returning, outside any
  \<^verbatim>\<open>try\<close> of its own, so a throw of that call is a throw of the handler; a throw of
  the handler or of a callback reporting its result enters the \<^verbatim>\<open>catch\<close> block.
\<close>

definition executeNode_cb ::
  "'w callbacks \<Rightarrow> (thrown, 'w) environment \<Rightarrow> executionContext \<Rightarrow> node \<Rightarrow> 'w executor
     \<Rightarrow> (thrown + executionResult) \<times> 'w executor" where
  "executeNode_cb cb env ctx node st =
     (let nodeId = id_n node in
      case callAll cb (OnNodeStatus nodeId Running # updateEdgeStatus ctx nodeId Running) st of
        (Some t, st1) \<Rightarrow> (Inl t, st1)
      | (None, st1) \<Rightarrow>
          (let run = dispatch env ctx node st1 in
           case callAll cb (map (OnNodeUpdate nodeId) (updates run))
                  (stopIf (stopCalled run) (st1\<lparr>world := worldAfter run\<rparr>)) of
             (Some t, st2) \<Rightarrow> catchBlock cb ctx nodeId t st2
           | (None, st2) \<Rightarrow>
               (case outcome run of
                  Throws error \<Rightarrow> catchBlock cb ctx nodeId error st2
                | Returns result \<Rightarrow>
                    (case callAll cb
                            (if success result
                             then reportEvents ctx nodeId Success
                                    (JObj [(''output'', data result)])
                             else reportEvents ctx nodeId Error
                                    (JObj [(''error'', JStr (message result))])) st2 of
                       (Some t, st3) \<Rightarrow> catchBlock cb ctx nodeId t st3
                     | (None, st3) \<Rightarrow>
                         (let waited = feedbackDelay env (world st3)
                          in (Inr result,
                              stopIf (fst waited) (st3\<lparr>world := snd waited\<rparr>)))))))"

text \<open>The loop of \<^verbatim>\<open>execute\<close>; \<open>Inl\<close> is an exception that left \<^verbatim>\<open>executeNode\<close>.\<close>

fun executeLoop_cb ::
  "'w callbacks \<Rightarrow> (thrown, 'w) environment \<Rightarrow> executionContext \<Rightarrow> string list
     \<Rightarrow> 'w executor \<Rightarrow> (thrown + executionResult option) \<times> 'w executor" where
  "executeLoop_cb cb env ctx [] st = (Inr None, st)"
| "executeLoop_cb cb env ctx (nodeId # rest) st =
     (if stopped st then (Inr (Some (failure ''Workflow execution stopped by user'')), st)
      else case findNode ctx nodeId of
             None \<Rightarrow> executeLoop_cb cb env ctx rest st
           | Some node \<Rightarrow>
               (case executeNode_cb cb env ctx node st of
                  (Inl t, st') \<Rightarrow> (Inl t, st')
                | (Inr result, st') \<Rightarrow>
                    if \<not> success result then
                      (Inr (Some (failure (''Failed at node \"'' @ label (data_n node)
                                            @ ''\": '' @ message result))), st')
                    else executeLoop_cb cb env ctx rest
                           (st'\<lparr>executionData :=
                                  AList.update nodeId (data result) (executionData st')\<rparr>)))"

definition executeBody_cb ::
  "'w callbacks \<Rightarrow> (thrown, 'w) environment \<Rightarrow> executionContext \<Rightarrow> 'w executor
     \<Rightarrow> (thrown + executionResult) \<times> 'w executor" where
  "executeBody_cb cb env ctx st =
     (case buildExecutionOrder (nodes ctx) (edges ctx) of
        Inl error \<Rightarrow> (Inl (ThrownError (errorMessage error)), st)
      | Inr executionOrder \<Rightarrow>
          if length executionOrder = 0 then
            (Inr (failure ''No nodes to execute. Please add nodes to your workflow.''), st)
          else
            (case executeLoop_cb cb env ctx executionOrder st of
               (Inl t, st') \<Rightarrow> (Inl t, st')
             | (Inr (Some r), st') \<Rightarrow> (Inr r, st')
             | (Inr None, st') \<Rightarrow>
                 (Inr \<lparr>success = True, message = ''Workflow executed successfully'',
                       data = JObj [(''summary'',
                                       JStr (generateSummary env ctx (executionData st')
                                               (world st'))),
                                    (''executionData'', JObj (executionData st'))]\<rparr>,
                  st')))"

text \<open>
  \<^verbatim>\<open>execute()\<close>. \<open>Inr r\<close>: the promise resolves with \<open>r\<close>. \<open>Inl t\<close>: the promise rejects
  with \<open>t\<close>, which happens when the read of \<^verbatim>\<open>error.message\<close> in the \<^verbatim>\<open>catch\<close> block
  (line 87) throws.
\<close>

definition execute_cb ::
  "'w callbacks \<Rightarrow> (thrown, 'w) environment \<Rightarrow> executionContext \<Rightarrow> 'w executor
     \<Rightarrow> (thrown + executionResult) \<times> 'w executor" where
  "execute_cb cb env ctx st =
     (case executeBody_cb cb env ctx (st\<lparr>stopped := False, executionData := []\<rparr>) of
        (Inr r, st') \<Rightarrow> (Inr r, st')
      | (Inl error, st') \<Rightarrow>
          (case readMessage error of
             Inl typeError \<Rightarrow> (Inl typeError, st')
           | Inr m \<Rightarrow>
               (Inr (failure (if m = [] then ''Unknown error during workflow execution''
                              else m)), st')))"

text \<open>
  The setting of the sections above inside this one: callbacks that only return, and
  an environment whose handlers throw \<^verbatim>\<open>Error\<close> objects.
\<close>

definition returning :: "'w callbacks" where
  "returning e w = (None, w)"

definition asThrown :: "jsError \<Rightarrow> thrown" where
  "asThrown error = ThrownError (errorMessage error)"

definition liftRun :: "(jsError, 'w) handlerRun \<Rightarrow> (thrown, 'w) handlerRun" where
  "liftRun run =
     \<lparr>outcome = (case outcome run of
                   Returns r \<Rightarrow> Returns r
                 | Throws e \<Rightarrow> Throws (asThrown e)),
      updates = updates run, stopCalled = stopCalled run, worldAfter = worldAfter run\<rparr>"

definition liftEnv :: "(jsError, 'w) environment \<Rightarrow> (thrown, 'w) environment" where
  "liftEnv env =
     \<lparr>executeProjectCreate = (\<lambda>c d n w. liftRun (executeProjectCreate env c d n w)),
      executeCompile = (\<lambda>c d n w. liftRun (executeCompile env c d n w)),
      executeGenerateABI = (\<lambda>c d n w. liftRun (executeGenerateABI env c d n w)),
      executeGenerateBytecode = (\<lambda>c d n w. liftRun (executeGenerateBytecode env c d n w)),
      executeDeploy = (\<lambda>c d n w. liftRun (executeDeploy env c d n w)),
      executeAIAudit = (\<lambda>c d n w. liftRun (executeAIAudit env c d n w)),
      executeCompletion = (\<lambda>c d n w. liftRun (executeCompletion env c d n w)),
      generateSummary = generateSummary env,
      feedbackDelay = feedbackDelay env\<rparr>"

section \<open>Vocabulary of the properties\<close>

text \<open>
  The status transitions among the callbacks issued, in order; the steps reported
  \<^verbatim>\<open>success\<close>; the type of the node an id resolves to; the terminal status that
  \<^verbatim>\<open>executeNode\<close> reports for a result.
\<close>

fun statusOf :: "event \<Rightarrow> (string \<times> status) list" where
  "statusOf (OnNodeStatus i s) = [(i, s)]"
| "statusOf (OnEdgeUpdate es) = []"
| "statusOf (OnNodeUpdate i v) = []"

definition statuses :: "event list \<Rightarrow> (string \<times> status) list" where
  "statuses evs = concat (map statusOf evs)"

definition succeeded :: "event list \<Rightarrow> string list" where
  "succeeded evs = map fst (filter (\<lambda>p. snd p = Success) (statuses evs))"

definition kindOf :: "executionContext \<Rightarrow> string \<Rightarrow> string option" where
  "kindOf ctx nodeId = map_option (\<lambda>n. type_n (data_n n)) (findNode ctx nodeId)"

definition terminal :: "executionResult \<Rightarrow> status" where
  "terminal r = (if success r then Success else Error)"

text \<open>
  The step ids of a graph, and its connection relation restricted to the steps that
  are present: the pairs \<open>(source, target)\<close> of the edges whose two ends are step ids.
\<close>

definition stepIds :: "executionContext \<Rightarrow> string list" where
  "stepIds ctx = map id_n (nodes ctx)"

definition connections :: "executionContext \<Rightarrow> (string \<times> string) list" where
  "connections ctx =
     map (\<lambda>e. (source e, target e))
       (filter (\<lambda>e. source e \<in> set (stepIds ctx) \<and> target e \<in> set (stepIds ctx)) (edges ctx))"

text \<open>
  A graph is well formed when its step ids are unique and every connection joins two
  of its steps.
\<close>

definition wellFormed :: "node list \<Rightarrow> edge list \<Rightarrow> bool" where
  "wellFormed ns es \<longleftrightarrow>
     distinct (map id_n ns) \<and>
     (\<forall>e \<in> set es. source e \<in> id_n ` set ns \<and> target e \<in> id_n ` set ns)"

text \<open>
  The scheduler's loop invariant. \<open>pending es result v\<close> counts the connections into
  \<open>v\<close> whose source has not been appended to the result yet. The queue and the
  result hold distinct steps; every in-degree is the pending count; a step is in the
  queue or the result exactly when its in-degree is 0; and a connection whose target
  is in the result has its source earlier in the result.
\<close>

definition pending :: "edge list \<Rightarrow> string list \<Rightarrow> string \<Rightarrow> nat" where
  "pending es result v = length (filter (\<lambda>e. target e = v \<and> source e \<notin> set result) es)"

definition schedulerInvariant ::
  "edge list \<Rightarrow> string set \<Rightarrow> inDegreeMap \<Rightarrow> string list \<Rightarrow> string list \<Rightarrow> bool" where
  "schedulerInvariant es ids inDegree queue result \<longleftrightarrow>
     distinct (result @ queue) \<and> set (result @ queue) \<subseteq> ids
     \<and> (\<forall>v. getOrZero inDegree v = int (pending es result v))
     \<and> (\<forall>v. v \<in> ids \<longrightarrow> (v \<in> set (result @ queue)) = (getOrZero inDegree v = 0))
     \<and> (\<forall>e. e \<in> set es \<longrightarrow> target e \<in> set result \<longrightarrow>
            (\<exists>xs ys. result = xs @ target e # ys \<and> source e \<in> set xs))"

text \<open>A regular expression without capturing parentheses.\<close>

fun groupFree :: "regex \<Rightarrow> bool" where
  "groupFree (Lit l) = True"
| "groupFree Space = True"
| "groupFree Word = True"
| "groupFree (Seq a b) = (groupFree a \<and> groupFree b)"
| "groupFree (Alt a b) = (groupFree a \<and> groupFree b)"
| "groupFree (Star a) = groupFree a"
| "groupFree (Group i a) = False"

text \<open>
  The thrown values whose \<^verbatim>\<open>message\<close> cannot be read; callbacks that always return,
  and callbacks that throw neither \<^verbatim>\<open>undefined\<close> nor \<^verbatim>\<open>null\<close>; the message of the
  result of \<^verbatim>\<open>execute\<close> after a handler of the step labelled \<open>nodeLabel\<close> threw \<open>t\<close>.
\<close>

fun nullish :: "thrown \<Rightarrow> bool" where
  "nullish (ThrownError m) = False"
| "nullish ThrownUndefined = True"
| "nullish ThrownNull = True"


definition neverNullish :: "'w callbacks \<Rightarrow> bool" where
  "neverNullish cb = (\<forall>e w t. fst (cb e w) = Some t \<longrightarrow> \<not> nullish t)"


section \<open>Sample graphs and environments\<close>

text \<open>
  Small concrete inputs on which the theorems below are exercised. The world of the
  sample environment counts handler invocations; \<^verbatim>\<open>compile\<close> throws, the other
  external handlers succeed with the counter as output; \<^verbatim>\<open>stop()\<close> is called during
  the feedback delay when the counter equals \<open>stopAt\<close>.
\<close>

definition sampleNode :: "string \<Rightarrow> string \<Rightarrow> node" where
  "sampleNode i t =
     \<lparr>id_n = i,
      data_n = \<lparr>label = ''step '' @ i, type_n = t, projectTitle = None,
                projectDescription = None, contractCode = None, contractName = None,
                compilerVersion = None, constructorArgs = None, aiPrompt = None\<rparr>\<rparr>"

definition sourceNode :: "string \<Rightarrow> string \<Rightarrow> node" where
  "sourceNode i code =
     \<lparr>id_n = i,
      data_n = \<lparr>label = ''step '' @ i, type_n = ''contractInput'', projectTitle = None,
                projectDescription = None, contractCode = Some code, contractName = None,
                compilerVersion = None, constructorArgs = None, aiPrompt = None\<rparr>\<rparr>"

definition sampleEdge :: "string \<Rightarrow> string \<Rightarrow> edge" where
  "sampleEdge s t =
     \<lparr>id_e = s @ ''-'' @ t, source = s, target = t, sourceStatus = None, targetStatus = None\<rparr>"

definition sampleContext :: "node list \<Rightarrow> edge list \<Rightarrow> executionContext" where
  "sampleContext ns es =
     \<lparr>nodes = ns, edges = es, selectedNetwork = None, hasOnEdgeUpdate = False\<rparr>"

definition succeeding ::
  "executionContext \<Rightarrow> (string \<times> jsval) list \<Rightarrow> node \<Rightarrow> nat
     \<Rightarrow> (jsError, nat) handlerRun" where
  "succeeding ctx entries n w =
     \<lparr>outcome = Returns \<lparr>success = True, message = ''ok'', data = JNum (int w)\<rparr>,
      updates = [], stopCalled = False, worldAfter = Suc w\<rparr>"

definition throwing ::
  "executionContext \<Rightarrow> (string \<times> jsval) list \<Rightarrow> node \<Rightarrow> nat
     \<Rightarrow> (jsError, nat) handlerRun" where
  "throwing ctx entries n w =
     \<lparr>outcome = Throws (JsError ''service unreachable''),
      updates = [], stopCalled = False, worldAfter = Suc w\<rparr>"

definition sampleEnv :: "nat option \<Rightarrow> (jsError, nat) environment" where
  "sampleEnv stopAt =
     \<lparr>executeProjectCreate = succeeding, executeCompile = throwing,
      executeGenerateABI = succeeding, executeGenerateBytecode = succeeding,
      executeDeploy = succeeding, executeAIAudit = succeeding,
      executeCompletion = succeeding,
      generateSummary = (\<lambda>ctx entries w. ''summary''),
      feedbackDelay = (\<lambda>w. (Some w = stopAt, w))\<rparr>"

definition sampleExecutor :: "nat executor" where
  "sampleExecutor = \<lparr>executionData = [], stopped = False, events = [], world = 0\<rparr>"

definition pipelineContext :: executionContext where
  "pipelineContext =
     sampleContext [sampleNode ''A'' ''projectCreate'', sampleNode ''B'' ''completion'',
                    sampleNode ''C'' ''completion'']
                   [sampleEdge ''A'' ''B'', sampleEdge ''B'' ''C'']"



definition cyclicContext :: executionContext where
  "cyclicContext =
     sampleContext [sampleNode ''A'' ''projectCreate'', sampleNode ''B'' ''completion'']
                   [sampleEdge ''A'' ''B'', sampleEdge ''B'' ''A'']"




text \<open>Two source steps ahead of a third step, and what each of them produces.\<close>

definition twoSourcesContext :: executionContext where
  "twoSourcesContext =
     sampleContext [sourceNode ''S1'' ''pragma solidity ^0.8.0; contract First {}'',
                    sourceNode ''S2'' ''pragma solidity ^0.8.0; contract Second {}'',
                    sampleNode ''T'' ''completion'']
                   [sampleEdge ''S1'' ''S2'', sampleEdge ''S2'' ''T'']"

definition firstOutput :: jsval where
  "firstOutput = JObj [(''contractCode'', JStr ''pragma solidity ^0.8.0; contract First {}''),
                       (''contractName'', JStr ''First'')]"

definition secondOutput :: jsval where
  "secondOutput = JObj [(''contractCode'', JStr ''pragma solidity ^0.8.0; contract Second {}''),
                        (''contractName'', JStr ''Second'')]"

text \<open>
  Graphs with a connection whose source or target is no step: alone, next to a
  connection between steps, and next to a cycle of two steps.
\<close>

definition danglingSourceContext :: executionContext where
  "danglingSourceContext =
     sampleContext [sampleNode ''A'' ''projectCreate''] [sampleEdge ''X'' ''A'']"

definition danglingTargetContext :: executionContext where
  "danglingTargetContext =
     sampleContext [sampleNode ''A'' ''projectCreate''] [sampleEdge ''A'' ''X'']"

definition sharedTargetContext :: executionContext where
  "sharedTargetContext =
     sampleContext [sampleNode ''A'' ''projectCreate'', sampleNode ''B'' ''completion'']
                   [sampleEdge ''A'' ''B'', sampleEdge ''X'' ''B'']"

definition maskedCycleContext :: executionContext where
  "maskedCycleContext =
     sampleContext [sampleNode ''A'' ''projectCreate'', sampleNode ''B'' ''completion'',
                    sampleNode ''C'' ''completion'']
                   [sampleEdge ''B'' ''C'', sampleEdge ''C'' ''B'',
                    sampleEdge ''A'' ''X'', sampleEdge ''A'' ''Y'']"




section \<open>The scheduler: auxiliary facts\<close>

lemma getOrZero_map_of: "getOrZero inDegree k = (case map_of inDegree k of None \<Rightarrow> 0 | Some d \<Rightarrow> d)"
  by (simp add: getOrZero_def split: option.splits)

lemma getOrZero_update [simp]:
  "getOrZero (AList.update k v inDegree) k' = (if k' = k then v else getOrZero inDegree k')"
  by (simp add: getOrZero_map_of update_conv')

lemma relax_degree:
  "relax ns (inDegree, queue) = (inDegree', queue') \<Longrightarrow>
     getOrZero inDegree' v = getOrZero inDegree v - int (count_list ns v)"
proof (induction ns arbitrary: inDegree queue)
  case Nil
  then show ?case by simp
next
  case (Cons n ns)
  let ?d = "getOrZero inDegree n - 1"
  from Cons.prems
  have "relax ns (AList.update n ?d inDegree, if ?d = 0 then queue @ [n] else queue)
          = (inDegree', queue')"
    by (simp add: Let_def)
  from Cons.IH [OF this] show ?case by simp
qed

lemma relax_queue:
  "relax ns (inDegree, queue) = (inDegree', queue') \<Longrightarrow>
     \<exists>ps. queue' = queue @ ps \<and> distinct ps \<and>
       (\<forall>v. v \<in> set ps \<longleftrightarrow>
              (1 \<le> getOrZero inDegree v \<and> getOrZero inDegree v \<le> int (count_list ns v)))"
proof (induction ns arbitrary: inDegree queue)
  case Nil
  then show ?case by auto
next
  case (Cons n ns)
  let ?d = "getOrZero inDegree n - 1"
  let ?deg = "AList.update n ?d inDegree"
  let ?q = "if ?d = 0 then queue @ [n] else queue"
  from Cons.prems have "relax ns (?deg, ?q) = (inDegree', queue')"
    by (simp add: Let_def)
  from Cons.IH [OF this] obtain ps where
    q: "queue' = ?q @ ps" and d: "distinct ps" and
    s: "\<And>v. v \<in> set ps \<longleftrightarrow>
              (1 \<le> getOrZero ?deg v \<and> getOrZero ?deg v \<le> int (count_list ns v))"
    by blast
  show ?case
  proof (cases "?d = 0")
    case True
    then have n: "n \<notin> set ps" using s [of n] by simp
    have "queue' = queue @ (n # ps)" using q True by simp
    moreover have "distinct (n # ps)" using d n by simp
    moreover have "v \<in> set (n # ps) \<longleftrightarrow>
       (1 \<le> getOrZero inDegree v \<and> getOrZero inDegree v \<le> int (count_list (n # ns) v))" for v
    proof (cases "v = n")
      case True
      with \<open>?d = 0\<close> show ?thesis by simp
    next
      case False
      then show ?thesis using s [of v] by simp
    qed
    ultimately show ?thesis by blast
  next
    case False
    have "queue' = queue @ ps" using q False by simp
    moreover have "v \<in> set ps \<longleftrightarrow>
       (1 \<le> getOrZero inDegree v \<and> getOrZero inDegree v \<le> int (count_list (n # ns) v))" for v
    proof (cases "v = n")
      case True
      with False show ?thesis using s [of n] by simp linarith
    next
      case False
      then show ?thesis using s [of v] by simp
    qed
    ultimately show ?thesis using d by blast
  qed
qed


lemma kahnLoop_distinct:
  "distinct (result @ queue) \<Longrightarrow> \<forall>k \<in> set (result @ queue). getOrZero inDegree k \<le> 0 \<Longrightarrow>
     distinct (kahnLoop adjacencyList inDegree queue result)"
proof (induction adjacencyList inDegree queue result rule: kahnLoop.induct)
  case (1 adjacencyList inDegree result)
  then show ?case by simp
next
  case (2 adjacencyList inDegree nodeId queue result)
  obtain inDegree' queue' where
    r: "relax (neighbors adjacencyList nodeId) (inDegree, queue) = (inDegree', queue')"
    by (cases "relax (neighbors adjacencyList nodeId) (inDegree, queue)")
  from relax_queue [OF r] obtain ps where
    q: "queue' = queue @ ps" and d: "distinct ps" and
    s: "\<And>v. v \<in> set ps \<Longrightarrow> 1 \<le> getOrZero inDegree v" and
    s': "\<And>v. v \<in> set ps \<Longrightarrow> getOrZero inDegree v
                  \<le> int (count_list (neighbors adjacencyList nodeId) v)"
    by blast
  have fresh: "v \<notin> set ps" if "v \<in> set (result @ nodeId # queue)" for v
    using that s [of v] "2.prems"(2) by fastforce
  have "distinct ((result @ [nodeId]) @ queue')"
    using "2.prems"(1) d fresh unfolding q by auto
  moreover have "\<forall>k \<in> set ((result @ [nodeId]) @ queue'). getOrZero inDegree' k \<le> 0"
  proof
    fix k assume k: "k \<in> set ((result @ [nodeId]) @ queue')"
    have e: "getOrZero inDegree' k
               = getOrZero inDegree k - int (count_list (neighbors adjacencyList nodeId) k)"
      by (rule relax_degree [OF r])
    show "getOrZero inDegree' k \<le> 0"
    proof (cases "k \<in> set ps")
      case True
      then show ?thesis using s' [of k] e by simp
    next
      case False
      with k q have "k \<in> set (result @ nodeId # queue)" by auto
      with "2.prems"(2) have "getOrZero inDegree k \<le> 0" by blast
      then show ?thesis using e by simp
    qed
  qed
  ultimately have "distinct (kahnLoop adjacencyList inDegree' queue' (result @ [nodeId]))"
    using "2.IH" [OF r [symmetric]] by blast
  then show ?case using r by simp
qed

lemma distinct_keys_addEdge:
  "distinct (map fst (fst g)) \<Longrightarrow> distinct (map fst (fst (addEdge e g)))"
  by (cases g) (simp add: addEdge_def distinct_update)

lemma distinct_keys_buildGraph:
  "distinct (map fst (fst (buildGraph ns es)))"
proof -
  have init: "distinct (map fst (fst (fold (\<lambda>n (inDegree, adjacencyList).
             (AList.update (id_n n) 0 inDegree, AList.update (id_n n) [] adjacencyList))
          ns g)))" if "distinct (map fst (fst g))" for g
    using that by (induction ns arbitrary: g) (auto simp: distinct_update split: prod.splits)
  have edges: "distinct (map fst (fst (fold addEdge es g)))"
    if "distinct (map fst (fst g))" for g
    using that by (induction es arbitrary: g) (auto simp: distinct_keys_addEdge)
  show ?thesis
    unfolding buildGraph_def initMaps_def by (rule edges, rule init) simp
qed

lemma seedQueue_distinct:
  "distinct (map fst inDegree) \<Longrightarrow> distinct (seedQueue inDegree)"
  unfolding seedQueue_def by (rule distinct_map_filter)

lemma seedQueue_zero:
  "distinct (map fst inDegree) \<Longrightarrow> k \<in> set (seedQueue inDegree) \<Longrightarrow> getOrZero inDegree k = 0"
  by (auto simp: seedQueue_def getOrZero_map_of)

lemma buildExecutionOrder_distinct:
  "buildExecutionOrder ns es = Inr order \<Longrightarrow> distinct order"
proof -
  assume a: "buildExecutionOrder ns es = Inr order"
  obtain inDegree adjacencyList where g: "buildGraph ns es = (inDegree, adjacencyList)"
    by (cases "buildGraph ns es")
  have dk: "distinct (map fst inDegree)"
    using distinct_keys_buildGraph [of ns es] g by simp
  have "distinct (kahnLoop adjacencyList inDegree (seedQueue inDegree) [])"
    by (rule kahnLoop_distinct) (use dk in \<open>auto simp: seedQueue_distinct seedQueue_zero\<close>)
  with a g show ?thesis
    by (auto simp: buildExecutionOrder_def Let_def split: if_splits)
qed

lemma addEdge_no_nodes:
  "\<forall>p \<in> set inDegree. 1 \<le> snd p \<Longrightarrow>
     \<exists>inDegree'. addEdge e (inDegree, []) = (inDegree', []) \<and> (\<forall>p \<in> set inDegree'. 1 \<le> snd p)"
proof -
  assume a: "\<forall>p \<in> set inDegree. 1 \<le> snd p"
  have "0 \<le> getOrZero inDegree (target e)"
    using a by (auto simp: getOrZero_map_of split: option.splits dest!: map_of_SomeD)
  moreover have "set (AList.update k v inDegree) \<subseteq> insert (k, v) (set inDegree)" for k v
    by (induction inDegree) auto
  ultimately show ?thesis
    using a by (fastforce simp: addEdge_def)
qed

lemma buildGraph_no_nodes:
  "\<forall>p \<in> set inDegree. 1 \<le> snd p \<Longrightarrow>
     \<exists>inDegree'. fold addEdge es (inDegree, []) = (inDegree', []) \<and> (\<forall>p \<in> set inDegree'. 1 \<le> snd p)"
proof (induction es arbitrary: inDegree)
  case Nil
  then show ?case by simp
next
  case (Cons e es)
  from addEdge_no_nodes [OF Cons.prems, of e] obtain d where
    "addEdge e (inDegree, []) = (d, [])" "\<forall>p \<in> set d. 1 \<le> snd p"
    by blast
  with Cons.IH [of d] show ?case by simp
qed

lemma buildExecutionOrder_no_nodes: "buildExecutionOrder [] es = Inr []"
proof -
  obtain d where g: "buildGraph [] es = (d, [])" and p: "\<forall>p \<in> set d. 1 \<le> snd p"
    using buildGraph_no_nodes [of "[]" es] by (auto simp: buildGraph_def initMaps_def)
  have "seedQueue d = []"
    using p by (auto simp: seedQueue_def filter_empty_conv)
  with g show ?thesis
    by (simp add: buildExecutionOrder_def)
qed

lemma initMaps_fold:
  "fold (\<lambda>n (inDegree, adjacencyList).
           (AList.update (id_n n) 0 inDegree, AList.update (id_n n) [] adjacencyList)) ns (d, a)
     = (d', a') \<Longrightarrow>
   (\<forall>p \<in> set d. snd p = 0) \<Longrightarrow> (\<forall>p \<in> set a. snd p = []) \<Longrightarrow>
   (\<forall>p \<in> set d'. snd p = 0) \<and> (\<forall>p \<in> set a'. snd p = [])
   \<and> fst ` set d' = fst ` set d \<union> id_n ` set ns
   \<and> fst ` set a' = fst ` set a \<union> id_n ` set ns"
proof (induction ns arbitrary: d a)
  case Nil
  then show ?case by simp
next
  case (Cons n ns)
  let ?d = "AList.update (id_n n) 0 d" and ?a = "AList.update (id_n n) [] a"
  have sub: "set (AList.update k v al) \<subseteq> insert (k, v) (set al)" for k and v :: 'v and al
    by (induction al) auto
  from Cons.prems(1) have f: "fold (\<lambda>n (inDegree, adjacencyList).
           (AList.update (id_n n) 0 inDegree, AList.update (id_n n) [] adjacencyList)) ns (?d, ?a)
     = (d', a')"
    by simp
  have "\<forall>p \<in> set ?d. snd p = 0" using Cons.prems(2) sub [of "id_n n" 0 d] by auto
  moreover have "\<forall>p \<in> set ?a. snd p = []" using Cons.prems(3) sub [of "id_n n" "[]" a] by auto
  ultimately have "(\<forall>p \<in> set d'. snd p = 0) \<and> (\<forall>p \<in> set a'. snd p = [])
   \<and> fst ` set d' = fst ` set ?d \<union> id_n ` set ns
   \<and> fst ` set a' = fst ` set ?a \<union> id_n ` set ns"
    by (rule Cons.IH [OF f])
  then show ?case by (auto simp: dom_update)
qed

lemma initMaps_facts:
  assumes "initMaps ns = (d, a)"
  shows "getOrZero d v = 0" and "neighbors a v = []"
    and "fst ` set d = id_n ` set ns" and "fst ` set a = id_n ` set ns"
proof -
  from initMaps_fold [of ns "[]" "[]" d a] assms
  have z: "\<forall>p \<in> set d. snd p = 0" and e: "\<forall>p \<in> set a. snd p = []"
    and kd: "fst ` set d = id_n ` set ns" and ka: "fst ` set a = id_n ` set ns"
    by (auto simp: initMaps_def)
  show "getOrZero d v = 0"
    using z by (auto simp: getOrZero_map_of split: option.splits dest!: map_of_SomeD)
  show "neighbors a v = []"
    using e by (auto simp: neighbors_def split: option.splits dest!: map_of_SomeD)
  show "fst ` set d = id_n ` set ns" by (rule kd)
  show "fst ` set a = id_n ` set ns" by (rule ka)
qed

lemma neighbors_update:
  "neighbors (AList.update k v a) u = (if u = k then v else neighbors a u)"
  by (simp add: neighbors_def update_conv')

lemma addEdge_facts:
  assumes "addEdge e (d, a) = (d', a')"
  shows "getOrZero d' v = getOrZero d v + (if target e = v then 1 else 0)"
    and "fst ` set a' = fst ` set a"
    and "neighbors a' u = (if u = source e \<and> u \<in> fst ` set a then neighbors a u @ [target e]
                           else neighbors a u)"
    and "fst ` set d' = insert (target e) (fst ` set d)"
proof -
  from assms have d': "d' = AList.update (target e) (getOrZero d (target e) + 1) d"
    and a': "a' = (case map_of a (source e) of None \<Rightarrow> a
                   | Some ts \<Rightarrow> AList.update (source e) (ts @ [target e]) a)"
    by (simp_all add: addEdge_def)
  show "getOrZero d' v = getOrZero d v + (if target e = v then 1 else 0)"
    unfolding d' by simp
  show "fst ` set d' = insert (target e) (fst ` set d)"
    unfolding d' by (simp add: dom_update)
  show "fst ` set a' = fst ` set a"
  proof (cases "map_of a (source e)")
    case None
    with a' show ?thesis by simp
  next
    case (Some ts)
    then have "source e \<in> fst ` set a" by (auto dest: map_of_SomeD intro: rev_image_eqI)
    with a' Some show ?thesis by (auto simp: dom_update)
  qed
  show "neighbors a' u = (if u = source e \<and> u \<in> fst ` set a then neighbors a u @ [target e]
                           else neighbors a u)"
  proof (cases "map_of a (source e)")
    case None
    then have "source e \<notin> fst ` set a" by (simp add: map_of_eq_None_iff)
    with a' None show ?thesis by simp
  next
    case (Some ts)
    then have "source e \<in> fst ` set a" by (auto dest: map_of_SomeD intro: rev_image_eqI)
    with a' Some show ?thesis by (simp add: neighbors_update) (simp add: neighbors_def)
  qed
qed

lemma fold_addEdge_facts:
  "fold addEdge es (d, a) = (d', a') \<Longrightarrow>
     (\<forall>v. getOrZero d' v = getOrZero d v + int (length (filter (\<lambda>e. target e = v) es)))
     \<and> fst ` set a' = fst ` set a
     \<and> (\<forall>u. neighbors a' u =
              (if u \<in> fst ` set a
               then neighbors a u @ map target (filter (\<lambda>e. source e = u) es)
               else neighbors a u))
     \<and> fst ` set d' = fst ` set d \<union> target ` set es"
proof (induction es arbitrary: d a)
  case Nil
  then show ?case by simp
next
  case (Cons e es)
  obtain d1 a1 where s: "addEdge e (d, a) = (d1, a1)" by (cases "addEdge e (d, a)")
  with Cons.prems have f: "fold addEdge es (d1, a1) = (d', a')" by simp
  note ih = Cons.IH [OF f]
  note st = addEdge_facts [OF s]
  have 1: "getOrZero d' v = getOrZero d v + int (length (filter (\<lambda>e. target e = v) (e # es)))" for v
    using ih st(1) [of v] by simp
  have 2: "fst ` set a' = fst ` set a"
    using ih st(2) by simp
  have 3: "neighbors a' u =
              (if u \<in> fst ` set a
               then neighbors a u @ map target (filter (\<lambda>e. source e = u) (e # es))
               else neighbors a u)" for u
    using ih st(2) st(3) [of u] by simp
  have 4: "fst ` set d' = fst ` set d \<union> target ` set (e # es)"
    using ih st(4) by auto
  from 1 2 3 4 show ?case by blast
qed

lemma buildGraph_facts:
  assumes g: "buildGraph ns es = (d, a)" and wf: "wellFormed ns es"
  shows "getOrZero d v = int (length (filter (\<lambda>e. target e = v) es))"
    and "neighbors a u = map target (filter (\<lambda>e. source e = u) es)"
    and "fst ` set d = id_n ` set ns"
proof -
  obtain d0 a0 where i: "initMaps ns = (d0, a0)" by (cases "initMaps ns")
  with g have f: "fold addEdge es (d0, a0) = (d, a)" by (simp add: buildGraph_def)
  note fi = initMaps_facts [OF i]
  note ff = fold_addEdge_facts [OF f]
  show "getOrZero d v = int (length (filter (\<lambda>e. target e = v) es))"
    using ff fi(1) by simp
  show "fst ` set d = id_n ` set ns"
    using ff fi(3) wf by (auto simp: wellFormed_def)
  show "neighbors a u = map target (filter (\<lambda>e. source e = u) es)"
  proof (cases "u \<in> id_n ` set ns")
    case True
    then show ?thesis using ff fi(2) fi(4) by simp
  next
    case False
    then have "filter (\<lambda>e. source e = u) es = []"
      using wf by (auto simp: wellFormed_def filter_empty_conv)
    with False show ?thesis using ff fi(2) fi(4) by simp
  qed
qed

lemma count_targets:
  "count_list (map target (filter (\<lambda>e. source e = u) es)) v
     = length (filter (\<lambda>e. target e = v \<and> source e = u) es)"
  by (induction es) auto

lemma pending_step:
  "u \<notin> set result \<Longrightarrow>
     pending es result v
       = pending es (result @ [u]) v + length (filter (\<lambda>e. target e = v \<and> source e = u) es)"
  unfolding pending_def by (induction es) auto

lemma schedulerInvariant_step:
  assumes inv: "schedulerInvariant es ids inDegree (u # queue) result"
    and adj: "neighbors adjacencyList u = map target (filter (\<lambda>e. source e = u) es)"
    and tgt: "target ` set es \<subseteq> ids"
    and rel: "relax (neighbors adjacencyList u) (inDegree, queue) = (inDegree', queue')"
  shows "schedulerInvariant es ids inDegree' queue' (result @ [u])"
proof -
  let ?nbrs = "neighbors adjacencyList u"
  let ?c = "\<lambda>v. length (filter (\<lambda>e. target e = v \<and> source e = u) es)"
  from inv have i1: "distinct (result @ u # queue)"
    and i2: "set (result @ u # queue) \<subseteq> ids"
    and i3: "\<And>v. getOrZero inDegree v = int (pending es result v)"
    and i4: "\<And>v. v \<in> ids \<Longrightarrow> (v \<in> set (result @ u # queue)) = (getOrZero inDegree v = 0)"
    and i5: "\<And>e. e \<in> set es \<Longrightarrow> target e \<in> set result \<Longrightarrow>
               \<exists>xs ys. result = xs @ target e # ys \<and> source e \<in> set xs"
    unfolding schedulerInvariant_def by blast+
  from i1 have u: "u \<notin> set result" by auto
  have cnt: "count_list ?nbrs v = ?c v" for v
    unfolding adj by (rule count_targets)
  have deg': "getOrZero inDegree' v = int (pending es (result @ [u]) v)" for v
    using relax_degree [OF rel, of v] i3 [of v] pending_step [OF u, of es v] cnt [of v]
    by simp
  from relax_queue [OF rel] obtain ps where
    q': "queue' = queue @ ps" and dps: "distinct ps" and
    ps: "\<And>v. v \<in> set ps \<longleftrightarrow>
              (1 \<le> getOrZero inDegree v \<and> getOrZero inDegree v \<le> int (count_list ?nbrs v))"
    by blast
  have ps_ids: "v \<in> ids" if "v \<in> set ps" for v
  proof -
    from that ps [of v] have "0 < length (filter (\<lambda>e. target e = v \<and> source e = u) es)"
      using cnt [of v] by linarith
    then have "filter (\<lambda>e. target e = v \<and> source e = u) es \<noteq> []"
      by (rule length_greater_0_conv [THEN iffD1])
    then obtain e where "e \<in> set es" "target e = v"
      by (auto simp: filter_empty_conv)
    with tgt show ?thesis by auto
  qed
  have ps_new: "v \<notin> set (result @ u # queue)" if "v \<in> set ps" for v
  proof
    assume "v \<in> set (result @ u # queue)"
    with i4 [OF ps_ids [OF that]] have "getOrZero inDegree v = 0" by simp
    with that ps [of v] show False by simp
  qed
  have n1: "distinct ((result @ [u]) @ queue')"
    using i1 dps ps_new unfolding q' by auto
  have n2: "set ((result @ [u]) @ queue') \<subseteq> ids"
    using i2 ps_ids unfolding q' by auto
  have n4: "(v \<in> set ((result @ [u]) @ queue')) = (getOrZero inDegree' v = 0)" if v: "v \<in> ids" for v
  proof -
    have e: "getOrZero inDegree' v = getOrZero inDegree v - int (?c v)"
      using relax_degree [OF rel, of v] cnt [of v] by simp
    have nonneg: "0 \<le> getOrZero inDegree' v" using deg' [of v] by simp
    show ?thesis
    proof
      assume "v \<in> set ((result @ [u]) @ queue')"
      then consider "v \<in> set (result @ u # queue)" | "v \<in> set ps"
        unfolding q' by auto
      then show "getOrZero inDegree' v = 0"
      proof cases
        case 1
        with i4 [OF v] have "getOrZero inDegree v = 0" by simp
        with e nonneg show ?thesis by simp
      next
        case 2
        with ps [of v] cnt [of v] e nonneg show ?thesis by simp
      qed
    next
      assume z: "getOrZero inDegree' v = 0"
      show "v \<in> set ((result @ [u]) @ queue')"
      proof (cases "getOrZero inDegree v = 0")
        case True
        with i4 [OF v] show ?thesis unfolding q' by auto
      next
        case False
        moreover have "0 \<le> getOrZero inDegree v" using i3 [of v] by simp
        ultimately have "v \<in> set ps"
          using ps [of v] cnt [of v] e z by simp
        then show ?thesis unfolding q' by simp
      qed
    qed
  qed
  have n5: "\<exists>xs ys. result @ [u] = xs @ target e # ys \<and> source e \<in> set xs"
    if e: "e \<in> set es" and t: "target e \<in> set (result @ [u])" for e
  proof (cases "target e \<in> set result")
    case True
    from i5 [OF e True] obtain xs ys where "result = xs @ target e # ys" "source e \<in> set xs"
      by blast
    then have "result @ [u] = xs @ target e # (ys @ [u]) \<and> source e \<in> set xs" by simp
    then show ?thesis by blast
  next
    case False
    with t have tu: "target e = u" by simp
    from i2 have "u \<in> ids" by simp
    from i4 [OF this] have "getOrZero inDegree u = 0" by simp
    with i3 [of u] have "pending es result u = 0" by simp
    then have "filter (\<lambda>e. target e = u \<and> source e \<notin> set result) es = []"
      by (simp add: pending_def)
    with e tu have "source e \<in> set result"
      by (auto simp: filter_empty_conv)
    with tu have "result @ [u] = result @ target e # [] \<and> source e \<in> set result" by simp
    then show ?thesis by blast
  qed
  show ?thesis
    unfolding schedulerInvariant_def using n1 n2 deg' n4 n5 by blast
qed

lemma kahnLoop_invariant:
  assumes tgt: "target ` set es \<subseteq> ids"
  shows "\<forall>u. neighbors adjacencyList u = map target (filter (\<lambda>e. source e = u) es) \<Longrightarrow>
     schedulerInvariant es ids inDegree queue result \<Longrightarrow>
     \<exists>inDegree'. schedulerInvariant es ids inDegree' []
                    (kahnLoop adjacencyList inDegree queue result)"
proof (induction adjacencyList inDegree queue result rule: kahnLoop.induct)
  case (1 adjacencyList inDegree result)
  then show ?case by auto
next
  case (2 adjacencyList inDegree nodeId queue result)
  obtain inDegree' queue' where
    r: "relax (neighbors adjacencyList nodeId) (inDegree, queue) = (inDegree', queue')"
    by (cases "relax (neighbors adjacencyList nodeId) (inDegree, queue)")
  from "2.prems"(1)
  have adj: "neighbors adjacencyList nodeId = map target (filter (\<lambda>e. source e = nodeId) es)"
    by blast
  have "schedulerInvariant es ids inDegree' queue' (result @ [nodeId])"
    by (rule schedulerInvariant_step [OF "2.prems"(2) adj tgt r])
  from "2.IH" [OF r [symmetric] "2.prems"(1) this] r show ?case by simp
qed

lemma initial_invariant:
  assumes g: "buildGraph ns es = (d, a)" and wf: "wellFormed ns es"
  shows "schedulerInvariant es (id_n ` set ns) d (seedQueue d) []"
proof -
  have dk: "distinct (map fst d)"
    using distinct_keys_buildGraph [of ns es] g by simp
  note f = buildGraph_facts [OF g wf]
  have 1: "distinct ([] @ seedQueue d)"
    using seedQueue_distinct [OF dk] by simp
  have 2: "set ([] @ seedQueue d) \<subseteq> id_n ` set ns"
    using f(3) by (auto simp: seedQueue_def intro: rev_image_eqI)
  have 3: "getOrZero d v = int (pending es [] v)" for v
    using f(1) [of v] by (simp add: pending_def)
  have 4: "(v \<in> set ([] @ seedQueue d)) = (getOrZero d v = 0)" if "v \<in> id_n ` set ns" for v
  proof
    assume "v \<in> set ([] @ seedQueue d)"
    then show "getOrZero d v = 0" using seedQueue_zero [OF dk] by simp
  next
    assume z: "getOrZero d v = 0"
    from that f(3) obtain x where x: "(v, x) \<in> set d" by force
    with dk have "map_of d v = Some x" by simp
    with z have "x = 0" by (simp add: getOrZero_map_of)
    with x show "v \<in> set ([] @ seedQueue d)"
      by (force simp: seedQueue_def)
  qed
  show ?thesis
    unfolding schedulerInvariant_def using 1 2 3 4 by simp
qed

lemma final_invariant:
  assumes g: "buildGraph ns es = (d, a)" and wf: "wellFormed ns es"
  shows "\<exists>d'. schedulerInvariant es (id_n ` set ns) d' [] (kahnLoop a d (seedQueue d) [])"
proof -
  have tgt: "target ` set es \<subseteq> id_n ` set ns"
    using wf by (auto simp: wellFormed_def)
  have adj: "\<forall>u. neighbors a u = map target (filter (\<lambda>e. source e = u) es)"
    using buildGraph_facts(2) [OF g wf] by simp
  show ?thesis
    by (rule kahnLoop_invariant [OF tgt adj initial_invariant [OF g wf]])
qed

lemma card_ids: "distinct (map id_n ns) \<Longrightarrow> card (id_n ` set ns) = length ns"
  using distinct_card [of "map id_n ns"] by simp

section \<open>The run loop: auxiliary facts\<close>

lemma statuses_append [simp]: "statuses (xs @ ys) = statuses xs @ statuses ys"
  by (simp add: statuses_def)

lemma statuses_Nil [simp]: "statuses [] = []"
  by (simp add: statuses_def)

lemma statuses_Cons [simp]: "statuses (e # es) = statusOf e @ statuses es"
  by (simp add: statuses_def)

lemma statuses_updateEdgeStatus [simp]: "statuses (updateEdgeStatus ctx i s) = []"
  by (simp add: statuses_def updateEdgeStatus_def)

lemma statuses_updates [simp]: "statuses (map (OnNodeUpdate i) us) = []"
  by (induction us) simp_all

lemma statuses_reportEvents [simp]: "statuses (reportEvents ctx i s p) = [(i, s)]"
  by (simp add: reportEvents_def)

lemma executeNode_statuses:
  "executeNode env ctx node st = (result, st') \<Longrightarrow>
     statuses (events st') = statuses (events st) @ [(id_n node, Running), (id_n node, terminal result)]"
  by (auto simp: executeNode_def Let_def emit_def stopIf_def stop_def terminal_def failure_def
           split: outcome.splits)

lemma executeNode_data:
  "executeNode env ctx node st = (result, st') \<Longrightarrow> executionData st' = executionData st"
  by (auto simp: executeNode_def Let_def emit_def stopIf_def stop_def split: outcome.splits)

lemma executeNode_output:
  "executeNode env ctx node st = (result, st') \<Longrightarrow> success result \<Longrightarrow>
     OnNodeUpdate (id_n node) (JObj [(''output'', data result)]) \<in> set (events st')"
  by (auto simp: executeNode_def Let_def emit_def stopIf_def stop_def reportEvents_def failure_def
           split: outcome.splits)

lemma executeNode_events:
  "executeNode env ctx node st = (result, st') \<Longrightarrow> \<exists>evs. events st' = events st @ evs"
  by (auto simp: executeNode_def Let_def emit_def stopIf_def stop_def split: outcome.splits)

lemma executeNode_throws:
  "outcome (dispatch env ctx node
      (emit (OnNodeStatus (id_n node) Running # updateEdgeStatus ctx (id_n node) Running) st))
     = Throws e \<Longrightarrow>
   fst (executeNode env ctx node st)
     = failure (if errorMessage e = [] then ''Node execution failed'' else errorMessage e)"
  by (simp add: executeNode_def Let_def)

lemma findNode_id: "findNode ctx nodeId = Some node \<Longrightarrow> id_n node = nodeId"
  by (auto simp: findNode_def find_Some_iff)


lemma executeLoop_split:
  "executeLoop env ctx (pre @ rest) st = (None, st2) \<Longrightarrow>
     \<exists>st1. executeLoop env ctx pre st = (None, st1) \<and> executeLoop env ctx rest st1 = (None, st2)"
proof (induction pre arbitrary: st)
  case Nil
  then show ?case by simp
next
  case (Cons x xs)
  then show ?case
    by (auto split: if_splits option.splits prod.splits)
qed

lemma update_fresh: "k \<notin> fst ` set al \<Longrightarrow> AList.update k v al = al @ [(k, v)]"
  by (induction al) auto

lemma succeeded_append [simp]: "succeeded (xs @ ys) = succeeded xs @ succeeded ys"
  by (simp add: succeeded_def)

lemma executeNode_succeeded:
  "executeNode env ctx node st = (result, st') \<Longrightarrow>
     succeeded (events st') = succeeded (events st) @ (if success result then [id_n node] else [])"
  by (drule executeNode_statuses) (simp add: succeeded_def terminal_def)





lemma executeLoop_events:
  "executeLoop env ctx xs st = (r, st') \<Longrightarrow> \<exists>evs. events st' = events st @ evs"
proof (induction xs arbitrary: st)
  case Nil
  then show ?case by simp
next
  case (Cons x xs)
  show ?case
  proof (cases "findNode ctx x")
    case None
    with Cons show ?thesis by (auto split: if_splits)
  next
    case (Some node)
    obtain result st1 where n: "executeNode env ctx node st = (result, st1)"
      by (cases "executeNode env ctx node st")
    from executeNode_events [OF n] obtain e1 where e1: "events st1 = events st @ e1" ..
    show ?thesis
    proof (cases "stopped st \<or> \<not> success result")
      case True
      with Cons.prems Some n e1 show ?thesis by (auto split: if_splits)
    next
      case False
      with Cons.prems Some n
      have "executeLoop env ctx xs
              (st1\<lparr>executionData := AList.update x (data result) (executionData st1)\<rparr>)
            = (r, st')"
        by simp
      from Cons.IH [OF this] e1 show ?thesis by auto
    qed
  qed
qed

lemma executeLoop_data:
  "executeLoop env ctx xs st = (r, st') \<Longrightarrow> distinct xs \<Longrightarrow>
   set xs \<inter> fst ` set (executionData st) = {} \<Longrightarrow>
   \<exists>ys. executionData st' = executionData st @ ys
      \<and> succeeded (events st') = succeeded (events st) @ map fst ys
      \<and> fst ` set ys \<subseteq> set xs \<and> distinct (map fst ys)
      \<and> (\<forall>(i, d) \<in> set ys. OnNodeUpdate i (JObj [(''output'', d)]) \<in> set (events st'))"
proof (induction xs arbitrary: st)
  case Nil
  then show ?case by simp
next
  case (Cons x xs)
  show ?case
  proof (cases "stopped st")
    case True
    with Cons.prems show ?thesis by auto
  next
    case False
    show ?thesis
    proof (cases "findNode ctx x")
      case None
      with Cons.prems False have "executeLoop env ctx xs st = (r, st')" by simp
      from Cons.IH [OF this] Cons.prems(2,3) obtain ys where
        "executionData st' = executionData st @ ys"
        "succeeded (events st') = succeeded (events st) @ map fst ys"
        "fst ` set ys \<subseteq> set xs" "distinct (map fst ys)"
        "\<forall>(i, d) \<in> set ys. OnNodeUpdate i (JObj [(''output'', d)]) \<in> set (events st')"
        by auto
      moreover from this(3) have "fst ` set ys \<subseteq> set (x # xs)" by auto
      ultimately show ?thesis by blast
    next
      case (Some node)
      obtain result st1 where n: "executeNode env ctx node st = (result, st1)"
        by (cases "executeNode env ctx node st")
      note i = findNode_id [OF Some]
      note d1 = executeNode_data [OF n]
      note s1 = executeNode_succeeded [OF n]
      show ?thesis
      proof (cases "success result")
        case False
        with Cons.prems \<open>\<not> stopped st\<close> Some n have "st' = st1" by simp
        with d1 s1 False show ?thesis by simp
      next
        case True
        let ?st2 = "st1\<lparr>executionData := AList.update x (data result) (executionData st1)\<rparr>"
        have fresh: "x \<notin> fst ` set (executionData st1)"
          using Cons.prems(3) d1 by auto
        have d2: "executionData ?st2 = executionData st @ [(x, data result)]"
          using update_fresh [OF fresh] d1 by simp
        have l: "executeLoop env ctx xs ?st2 = (r, st')"
          using Cons.prems(1) \<open>\<not> stopped st\<close> Some n True by simp
        have "set xs \<inter> fst ` set (executionData ?st2) = {}"
          using Cons.prems(2,3) d2 by auto
        with Cons.IH [OF l] Cons.prems(2) obtain ys where
          y1: "executionData st' = executionData ?st2 @ ys" and
          y2: "succeeded (events st') = succeeded (events ?st2) @ map fst ys" and
          y3: "fst ` set ys \<subseteq> set xs" and y5: "distinct (map fst ys)" and
          y4: "\<forall>(i, d) \<in> set ys. OnNodeUpdate i (JObj [(''output'', d)]) \<in> set (events st')"
          by auto
        from executeLoop_events [OF l] obtain evs where
          "events st' = events st1 @ evs" by auto
        with executeNode_output [OF n True] i
        have o: "OnNodeUpdate x (JObj [(''output'', data result)]) \<in> set (events st')"
          by simp
        let ?ys = "(x, data result) # ys"
        have "executionData st' = executionData st @ ?ys"
          using y1 d2 by simp
        moreover have "succeeded (events st') = succeeded (events st) @ map fst ?ys"
          using y2 s1 True i by simp
        moreover have "fst ` set ?ys \<subseteq> set (x # xs)"
          using y3 by auto
        moreover have "distinct (map fst ?ys)"
          using y3 y5 Cons.prems(2) by auto
        moreover have "\<forall>(i, d) \<in> set ?ys. OnNodeUpdate i (JObj [(''output'', d)]) \<in> set (events st')"
          using y4 o by simp
        ultimately show ?thesis by blast
      qed
    qed
  qed
qed





lemma findPreviousData_kindOf:
  "findPreviousData ctx entries K =
     (case find (\<lambda>(i, v). kindOf ctx i = Some K) entries of None \<Rightarrow> JNull | Some (i, v) \<Rightarrow> v)"
proof -
  have "(\<lambda>(nodeId, d). case findNode ctx nodeId of None \<Rightarrow> False
                        | Some node \<Rightarrow> type_n (data_n node) = K)
        = (\<lambda>(i, v). kindOf ctx i = Some K)"
    by (auto simp: kindOf_def fun_eq_iff split: option.splits)
  then show ?thesis unfolding findPreviousData_def by (rule arg_cong [where f = "\<lambda>p. case find p entries of None \<Rightarrow> JNull | Some (i, v) \<Rightarrow> v"])
qed

lemma findPreviousData_none:
  "\<forall>(i, v) \<in> set entries. kindOf ctx i \<noteq> Some K \<Longrightarrow> findPreviousData ctx entries K = JNull"
proof -
  assume "\<forall>(i, v) \<in> set entries. kindOf ctx i \<noteq> Some K"
  then have "find (\<lambda>(i, v). kindOf ctx i = Some K) entries = None"
    by (induction entries) auto
  then show ?thesis by (simp add: findPreviousData_kindOf)
qed

lemma findPreviousData_first:
  "kindOf ctx S = Some K \<Longrightarrow> \<forall>(i, v) \<in> set es1. kindOf ctx i \<noteq> Some K \<Longrightarrow>
     findPreviousData ctx (es1 @ (S, d) # es2) K = d"
proof -
  assume k: "kindOf ctx S = Some K" and n: "\<forall>(i, v) \<in> set es1. kindOf ctx i \<noteq> Some K"
  from n have "find (\<lambda>(i, v). kindOf ctx i = Some K) (es1 @ (S, d) # es2) = Some (S, d)"
    using k by (induction es1) auto
  then show ?thesis by (simp add: findPreviousData_kindOf)
qed

lemma lookup_in_run:
  assumes order: "buildExecutionOrder (nodes ctx) (edges ctx) = Inr (pre1 @ S # pre2 @ T # post)"
    and run: "executeLoop env ctx (pre1 @ S # pre2) (st\<lparr>stopped := False, executionData := []\<rparr>)
                = (None, stT)"
    and kind: "kindOf ctx S = Some K"
    and first: "\<forall>i \<in> set pre1. kindOf ctx i \<noteq> Some K"
  shows "\<exists>d. map_of (executionData stT) S = Some d
            \<and> OnNodeUpdate S (JObj [(''output'', d)]) \<in> set (events stT)
            \<and> findPreviousData ctx (executionData stT) K = d"
proof -
  let ?st0 = "st\<lparr>stopped := False, executionData := []\<rparr>"
  from buildExecutionOrder_distinct [OF order]
  have d1: "distinct pre1" and d2: "distinct pre2" and sp1: "S \<notin> set pre1"
    and sp2: "S \<notin> set pre2" and d12: "set pre1 \<inter> set pre2 = {}"
    by auto
  from executeLoop_split [OF run] obtain stA where
    a: "executeLoop env ctx pre1 ?st0 = (None, stA)" and
    b: "executeLoop env ctx (S # pre2) stA = (None, stT)"
    by blast
  from kind obtain node where node: "findNode ctx S = Some node"
    by (auto simp: kindOf_def)
  obtain result stB where n: "executeNode env ctx node stA = (result, stB)"
    by (cases "executeNode env ctx node stA")
  let ?stB = "stB\<lparr>executionData := AList.update S (data result) (executionData stB)\<rparr>"
  from b node n have ok: "success result" and c: "executeLoop env ctx pre2 ?stB = (None, stT)"
    by (auto split: if_splits)
  have "set pre1 \<inter> fst ` set (executionData ?st0) = {}" by simp
  from executeLoop_data [OF a d1 this] obtain ysA where
    yA: "executionData stA = ysA" and kA: "fst ` set ysA \<subseteq> set pre1"
    by auto
  have fresh: "S \<notin> fst ` set (executionData stB)"
    using executeNode_data [OF n] yA kA sp1 by auto
  have dB: "executionData ?stB = ysA @ [(S, data result)]"
    using update_fresh [OF fresh] executeNode_data [OF n] yA by simp
  have "set pre2 \<inter> fst ` set (executionData ?stB) = {}"
    using dB kA d12 sp2 by auto
  from executeLoop_data [OF c d2 this] obtain ys2 where
    yT: "executionData stT = ysA @ (S, data result) # ys2"
    using dB by auto
  from executeLoop_events [OF c] obtain evs where "events stT = events stB @ evs"
    by auto
  with executeNode_output [OF n ok] findNode_id [OF node]
  have out: "OnNodeUpdate S (JObj [(''output'', data result)]) \<in> set (events stT)"
    by simp
  have "map_of ysA S = None"
    using kA sp1 by (auto simp: map_of_eq_None_iff)
  then have m: "map_of (executionData stT) S = Some (data result)"
    unfolding yT by (simp add: map_add_def)
  have "\<forall>(i, v) \<in> set ysA. kindOf ctx i \<noteq> Some K"
    using kA first by auto
  from findPreviousData_first [OF kind this]
  have "findPreviousData ctx (executionData stT) K = data result"
    unfolding yT .
  with m out show ?thesis by blast
qed

section \<open>The source checks: auxiliary facts\<close>

lemma rmatch_reaches_continuation:
  "groupFree r \<Longrightarrow> rmatch r s c k = Some res \<Longrightarrow>
     \<exists>s'. length s' \<le> length s \<and> k s' c = Some res"
proof (induction r s c k arbitrary: res rule: rmatch.induct)
  case (1 l s c k)
  then have "k (drop (length l) s) c = Some res" by (simp split: if_splits)
  then show ?case by (intro exI [of _ "drop (length l) s"]) simp
next
  case (2 s c k)
  then obtain x xs where "s = x # xs" "k xs c = Some res"
    by (auto split: list.splits if_splits)
  then show ?case by (intro exI [of _ xs]) simp
next
  case (3 s c k)
  then obtain x xs where "s = x # xs" "k xs c = Some res"
    by (auto split: list.splits if_splits)
  then show ?case by (intro exI [of _ xs]) simp
next
  case (4 a b s c k)
  from "4.prems" have ga: "groupFree a" and gb: "groupFree b"
    and m: "rmatch a s c (\<lambda>s' c'. rmatch b s' c' k) = Some res"
    by simp_all
  from "4.IH"(2) [OF ga m] obtain s1 where
    s1: "length s1 \<le> length s" and m1: "rmatch b s1 c k = Some res"
    by blast
  from "4.IH"(1) [OF gb m1] obtain s2 where
    "length s2 \<le> length s1" "k s2 c = Some res"
    by blast
  with s1 show ?case by (intro exI [of _ s2]) simp
next
  case (5 a b s c k)
  from "5.prems" have ga: "groupFree a" and gb: "groupFree b" by simp_all
  show ?case
  proof (cases "rmatch a s c k")
    case None
    with "5.prems" have "rmatch b s c k = Some res" by simp
    from "5.IH"(2) [OF None gb this] show ?thesis .
  next
    case (Some r)
    with "5.prems" have "rmatch a s c k = Some res" by simp
    from "5.IH"(1) [OF ga this] show ?thesis .
  qed
next
  case (6 a s c k)
  let ?K = "\<lambda>s' c'. if length s' < length s then rmatch (Star a) s' c' k else None"
  from "6.prems" have ga: "groupFree a" by simp
  show ?case
  proof (cases "rmatch a s c ?K")
    case None
    with "6.prems" have "k s c = Some res" by simp
    then show ?thesis by (intro exI [of _ s]) simp
  next
    case (Some r)
    with "6.prems" have m: "rmatch a s c ?K = Some res" by simp
    from "6.IH"(2) [OF ga m] obtain s1 where
      s1: "length s1 \<le> length s" and k1: "?K s1 c = Some res"
      by blast
    then have lt: "length s1 < length s" and m1: "rmatch (Star a) s1 c k = Some res"
      by (auto split: if_splits)
    from "6.IH"(1) [OF lt _ m1] "6.prems"(1) obtain s2 where
      "length s2 \<le> length s1" "k s2 c = Some res"
      by auto
    with lt show ?thesis by (intro exI [of _ s2]) simp
  qed
next
  case (7 i a s c k)
  then show ?case by simp
qed


lemma rmatch_failure_cong:
  "(\<And>s' c1 c2. (k s' c1 = None) = (k' s' c2 = None)) \<Longrightarrow>
     (rmatch r s c k = None) = (rmatch r s c' k' = None)"
proof (induction r s c k arbitrary: k' c' rule: rmatch.induct)
  case (1 l s c k)
  then show ?case by simp
next
  case (2 s c k)
  then show ?case by (simp split: list.splits)
next
  case (3 s c k)
  then show ?case by (simp split: list.splits)
next
  case (4 a b s c k)
  have "(rmatch b s' c1 k = None) = (rmatch b s' c2 k' = None)" for s' c1 c2
    by (rule "4.IH"(1)) (rule "4.prems")
  then show ?case by (simp add: "4.IH"(2))
next
  case (5 a b s c k)
  have a: "(rmatch a s c k = None) = (rmatch a s c' k' = None)"
    by (rule "5.IH"(1)) (rule "5.prems")
  show ?case
  proof (cases "rmatch a s c k")
    case None
    then have n': "rmatch a s c' k' = None" using a by simp
    have "(rmatch b s c k = None) = (rmatch b s c' k' = None)"
      by (rule "5.IH"(2) [OF None]) (rule "5.prems")
    with None n' show ?thesis by simp
  next
    case (Some r)
    with a obtain r' where "rmatch a s c' k' = Some r'" by auto
    with Some show ?thesis by simp
  qed
next
  case (6 a s c k)
  let ?K = "\<lambda>k s' c'. if length s' < length s then rmatch (Star a) s' c' k else None"
  have inner: "(?K k s' c1 = None) = (?K k' s' c2 = None)" for s' c1 c2
  proof (cases "length s' < length s")
    case True
    have "(rmatch (Star a) s' c1 k = None) = (rmatch (Star a) s' c2 k' = None)"
      by (rule "6.IH"(1) [OF True]) (rule "6.prems")
    with True show ?thesis by simp
  next
    case False
    then show ?thesis by simp
  qed
  have outer: "(rmatch a s c (?K k) = None) = (rmatch a s c' (?K k') = None)"
    by (rule "6.IH"(2)) (rule inner)
  have here: "(k s c = None) = (k' s c' = None)" by (rule "6.prems")
  show ?case
    using outer here by (auto split: option.splits)
next
  case (7 i a s c k)
  have "(k s' (AList.update i (take (length s - length s') s) c1) = None)
          = (k' s' (AList.update i (take (length s - length s') s) c2) = None)" for s' c1 c2
    by (rule "7.prems")
  then show ?case by (simp add: "7.IH")
qed

lemma group_transparent:
  assumes "\<And>s' c1 c2. (k s' c1 = None) = (k' s' c2 = None)"
  shows "(rmatch (Group i a) s c k = None) = (rmatch a s c' k' = None)"
proof -
  have "(k s' (AList.update i (take (length s - length s') s) c1) = None) = (k' s' c2 = None)"
    for s' c1 c2
    by (rule assms)
  then show ?thesis
    by (simp add: rmatch_failure_cong [where c' = c' and k' = k'])
qed

lemma definition_iff_anyContract:
  "(rmatch definitionRegex s [] (\<lambda>s c. Some c) = None)
     = (rmatch anyContractRegex s [] (\<lambda>s c. Some c) = None)"
proof -
  let ?k0 = "\<lambda>(s :: string) (c :: captures). Some c"
  have words: "(rmatch (Plus Word) s' c1 ?k0 = None) = (rmatch (Group 1 (Plus Word)) s' c2 ?k0 = None)"
    for s' c1 c2
    by (rule group_transparent [symmetric]) simp
  have spaces: "(rmatch (Seq (Plus Space) (Plus Word)) s' c1 ?k0 = None)
                  = (rmatch (Seq (Plus Space) (Group 1 (Plus Word))) s' c2 ?k0 = None)"
    for s' c1 c2
    unfolding rmatch.simps(4) by (rule rmatch_failure_cong) (rule words)
  show ?thesis
    unfolding definitionRegex_def anyContractRegex_def rmatch.simps(4) [of "Alt _ _"]
    by (rule rmatch_failure_cong) (rule spaces)
qed

lemma search_definition_iff_anyContract:
  "(search definitionRegex s = None) = (search anyContractRegex s = None)"
proof (induction s)
  case Nil
  then show ?case using definition_iff_anyContract [of "[]"] by simp
next
  case (Cons x xs)
  then show ?case
    using definition_iff_anyContract [of "x # xs"] by (auto split: option.splits)
qed

lemma word_group_captures:
  assumes "rmatch (Group i (Plus Word)) s c k = Some res"
  shows "\<exists>s' g. g \<noteq> [] \<and> k s' (AList.update i g c) = Some res"
proof -
  let ?k = "\<lambda>s' c'. k s' (AList.update i (take (length s - length s') s) c')"
  from assms have m: "rmatch Word s c (\<lambda>s' c'. rmatch (Star Word) s' c' ?k) = Some res"
    by (simp only: Plus_def rmatch.simps(4) rmatch.simps(7))
  have "\<exists>x xs. s = x # xs \<and> rmatch (Star Word) xs c ?k = Some res"
  proof (cases s)
    case Nil
    with m show ?thesis by (simp only: rmatch.simps(3) list.case) simp
  next
    case (Cons x xs)
    with m have "(if isWord x then rmatch (Star Word) xs c ?k else None) = Some res"
      by (simp only: rmatch.simps(3) list.case)
    then have "rmatch (Star Word) xs c ?k = Some res"
      by (simp only: split: if_splits) simp
    with Cons show ?thesis by blast
  qed
  then obtain x xs where s: "s = x # xs" and m1: "rmatch (Star Word) xs c ?k = Some res"
    by blast
  have "groupFree (Star Word)" by simp
  from rmatch_reaches_continuation [OF this m1] obtain s' where
    l: "length s' \<le> length xs" and k: "?k s' c = Some res"
    by blast
  from l s have "take (length s - length s') s \<noteq> []" by auto
  with k show ?thesis by blast
qed

lemma anyContract_captures:
  assumes "rmatch anyContractRegex s [] (\<lambda>s c. Some c) = Some caps"
  shows "\<exists>g. g \<noteq> [] \<and> map_of caps 1 = Some g"
proof -
  let ?k0 = "\<lambda>(s :: string) (c :: captures). Some c"
  let ?kw = "Alt (Lit ''contract'') (Alt (Lit ''interface'') (Lit ''library''))"
  have g1: "groupFree ?kw" by simp
  have g2: "groupFree (Plus Space)" by (simp add: Plus_def)
  from assms have
    "rmatch ?kw s [] (\<lambda>s1 c1. rmatch (Plus Space) s1 c1
        (\<lambda>s2 c2. rmatch (Group 1 (Plus Word)) s2 c2 ?k0)) = Some caps"
    by (simp only: anyContractRegex_def rmatch.simps(4))
  from rmatch_reaches_continuation [OF g1 this] obtain s1 where
    "rmatch (Plus Space) s1 [] (\<lambda>s2 c2. rmatch (Group 1 (Plus Word)) s2 c2 ?k0) = Some caps"
    by blast
  from rmatch_reaches_continuation [OF g2 this] obtain s2 where
    "rmatch (Group 1 (Plus Word)) s2 [] ?k0 = Some caps"
    by blast
  from word_group_captures [OF this] obtain g where "g \<noteq> []" "caps = [(1, g)]"
    by auto
  then show ?thesis by simp
qed

lemma mainContract_captures:
  assumes "rmatch mainContractRegex s [] (\<lambda>s c. Some c) = Some caps"
  shows "\<exists>g. g \<noteq> [] \<and> map_of caps 1 = Some g"
proof -
  let ?k0 = "\<lambda>(s :: string) (c :: captures). Some c"
  let ?tail = "Alt (Seq (Plus Space) (Seq (Lit ''is'') (Plus Space)))
                   (Seq (Star Space) (Lit ''{''))"
  have g1: "groupFree (Lit ''contract'')" by simp
  have g2: "groupFree (Plus Space)" by (simp add: Plus_def)
  have g3: "groupFree ?tail" by (simp add: Plus_def)
  from assms have
    "rmatch (Seq (Lit ''contract'') (Seq (Plus Space) (Seq (Group 1 (Plus Word)) ?tail)))
       s [] ?k0 = Some caps"
    by (simp only: mainContractRegex_def)
  then have
    "rmatch (Lit ''contract'') s []
       (\<lambda>s1 c1. rmatch (Plus Space) s1 c1
          (\<lambda>s2 c2. rmatch (Group 1 (Plus Word)) s2 c2
             (\<lambda>s3 c3. rmatch ?tail s3 c3 ?k0))) = Some caps"
    by (simp only: rmatch.simps(4) [of "Lit ''contract''"]
                   rmatch.simps(4) [of "Plus Space"]
                   rmatch.simps(4) [of "Group 1 (Plus Word)"])
  from rmatch_reaches_continuation [OF g1 this] obtain s1 where
    "rmatch (Plus Space) s1 []
       (\<lambda>s2 c2. rmatch (Group 1 (Plus Word)) s2 c2 (\<lambda>s3 c3. rmatch ?tail s3 c3 ?k0))
     = Some caps"
    by blast
  from rmatch_reaches_continuation [OF g2 this] obtain s2 where
    "rmatch (Group 1 (Plus Word)) s2 [] (\<lambda>s3 c3. rmatch ?tail s3 c3 ?k0) = Some caps"
    by blast
  from word_group_captures [OF this] obtain s3 g where
    g: "g \<noteq> []" and t: "rmatch ?tail s3 (AList.update 1 g []) ?k0 = Some caps"
    by blast
  from rmatch_reaches_continuation [OF g3 t] have "caps = [(1, g)]"
    by auto
  with g show ?thesis by simp
qed

lemma search_found:
  "search r s = Some caps \<Longrightarrow> \<exists>s'. rmatch r s' [] (\<lambda>s c. Some c) = Some caps"
proof (induction s)
  case Nil
  then show ?case by (simp only: search.simps) blast
next
  case (Cons x xs)
  show ?case
  proof (cases "rmatch r (x # xs) [] (\<lambda>s c. Some c)")
    case None
    with Cons.prems have "search r xs = Some caps" by (simp only: search.simps option.case)
    from Cons.IH [OF this] show ?thesis .
  next
    case (Some c)
    with Cons.prems have "c = caps" by (simp only: search.simps option.case) simp
    with Some show ?thesis by blast
  qed
qed

lemma extractContractName_nonempty:
  assumes "search definitionRegex sourceCode \<noteq> None"
  shows "\<exists>name. extractContractName sourceCode = Some name \<and> name \<noteq> []"
proof (cases "search mainContractRegex sourceCode")
  case (Some contractMatch)
  from search_found [OF Some] mainContract_captures
  obtain g where "g \<noteq> []" "map_of contractMatch 1 = Some g" by blast
  with Some show ?thesis by (simp add: extractContractName_def)
next
  case None
  from assms search_definition_iff_anyContract [of sourceCode]
  obtain anyContractMatch where a: "search anyContractRegex sourceCode = Some anyContractMatch"
    by auto
  from search_found [OF a] anyContract_captures
  obtain g where "g \<noteq> []" "map_of anyContractMatch 1 = Some g" by blast
  with None a show ?thesis by (simp add: extractContractName_def)
qed

lemma valid_has_definition:
  "valid (validateSolidityCode sourceCode) \<Longrightarrow> search definitionRegex sourceCode \<noteq> None"
  by (auto simp: validateSolidityCode_def split: if_splits)

section \<open>The scheduler on well-formed graphs\<close>

text \<open>
  When every connection joins two steps of the graph and the step ids are unique,
  \<^verbatim>\<open>buildExecutionOrder\<close> is Kahn's algorithm as intended: an order it returns is a
  permutation of the step ids in which the source of every connection comes before
  its target; it returns an order whenever the connections are acyclic; and it throws
  the cycle error whenever they are not, in which case \<^verbatim>\<open>execute\<close> returns that error
  with no callback issued and the world untouched.
\<close>

lemma scheduler_sound:
  assumes wf: "wellFormed ns es" and ok: "buildExecutionOrder ns es = Inr order"
  shows "distinct order \<and> set order = id_n ` set ns
         \<and> (\<forall>e. e \<in> set es \<longrightarrow> (\<exists>xs ys. order = xs @ target e # ys \<and> source e \<in> set xs))"
proof -
  obtain d a where g: "buildGraph ns es = (d, a)" by (cases "buildGraph ns es")
  let ?result = "kahnLoop a d (seedQueue d) []"
  from ok g have r: "order = ?result" and len: "length ?result = length ns"
    by (auto simp: buildExecutionOrder_def Let_def split: if_splits)
  from final_invariant [OF g wf] obtain d' where
    inv: "schedulerInvariant es (id_n ` set ns) d' [] ?result" ..
  then have dist: "distinct ?result" and sub: "set ?result \<subseteq> id_n ` set ns"
    and ord: "\<And>e. e \<in> set es \<Longrightarrow> target e \<in> set ?result \<Longrightarrow>
               \<exists>xs ys. ?result = xs @ target e # ys \<and> source e \<in> set xs"
    unfolding schedulerInvariant_def by simp_all
  have ci: "card (id_n ` set ns) = length ns"
    using wf by (intro card_ids) (simp add: wellFormed_def)
  have "card (set ?result) = card (id_n ` set ns)"
    using distinct_card [OF dist] len ci by simp
  with sub have all: "set ?result = id_n ` set ns"
    by (intro card_subset_eq) simp_all
  have "\<exists>xs ys. ?result = xs @ target e # ys \<and> source e \<in> set xs" if "e \<in> set es" for e
    using ord [OF that] all wf that by (auto simp: wellFormed_def)
  with dist all r show ?thesis by simp
qed

lemma scheduler_complete:
  assumes wf: "wellFormed ns es"
    and ac: "acyclic (set (map (\<lambda>e. (source e, target e)) es))"
  shows "\<exists>order. buildExecutionOrder ns es = Inr order"
proof -
  let ?ids = "id_n ` set ns"
  let ?rel = "set (map (\<lambda>e. (source e, target e)) es)"
  obtain d a where g: "buildGraph ns es = (d, a)" by (cases "buildGraph ns es")
  let ?result = "kahnLoop a d (seedQueue d) []"
  from final_invariant [OF g wf] obtain d' where
    inv: "schedulerInvariant es ?ids d' [] ?result" ..
  then have dist: "distinct ?result" and sub: "set ?result \<subseteq> ?ids"
    and deg: "\<And>v. getOrZero d' v = int (pending es ?result v)"
    and zero: "\<And>v. v \<in> ?ids \<Longrightarrow> (v \<in> set ?result) = (getOrZero d' v = 0)"
    unfolding schedulerInvariant_def by simp_all
  have wfr: "wf ?rel" by (rule finite_acyclic_wf [OF _ ac]) simp
  have all: "set ?result = ?ids"
  proof (rule ccontr)
    assume "set ?result \<noteq> ?ids"
    with sub obtain v0 where "v0 \<in> ?ids - set ?result" by auto
    with wfr obtain z where z: "z \<in> ?ids - set ?result"
      and min: "\<And>y. (y, z) \<in> ?rel \<Longrightarrow> y \<notin> ?ids - set ?result"
      by (rule wfE_min) blast
    from z zero [of z] have "getOrZero d' z \<noteq> 0" by simp
    with deg [of z] have "pending es ?result z \<noteq> 0" by simp
    then have "filter (\<lambda>e. target e = z \<and> source e \<notin> set ?result) es \<noteq> []"
      by (simp add: pending_def)
    then obtain e where e: "e \<in> set es" "target e = z" "source e \<notin> set ?result"
      by (auto simp: filter_empty_conv)
    then have "(source e, z) \<in> ?rel" by force
    moreover from e wf have "source e \<in> ?ids - set ?result"
      by (auto simp: wellFormed_def)
    ultimately show False using min by blast
  qed
  have ci: "card ?ids = length ns"
    using wf by (intro card_ids) (simp add: wellFormed_def)
  have "length ?result = length ns"
    using distinct_card [OF dist] all ci by simp
  with g show ?thesis by (simp add: buildExecutionOrder_def)
qed

lemma position_before:
  assumes "distinct (xs @ t # ys)" and "s \<in> set xs"
  shows "length (takeWhile (\<lambda>x. x \<noteq> s) (xs @ t # ys))
           < length (takeWhile (\<lambda>x. x \<noteq> t) (xs @ t # ys))"
proof -
  from assms have t: "t \<notin> set xs" by auto
  then have "takeWhile (\<lambda>x. x \<noteq> t) (xs @ t # ys) = xs"
    by (induction xs) auto
  moreover have "takeWhile (\<lambda>x. x \<noteq> s) (xs @ t # ys) = takeWhile (\<lambda>x. x \<noteq> s) xs"
    using assms(2) by (simp add: takeWhile_append1)
  moreover have "length (takeWhile (\<lambda>x. x \<noteq> s) xs) < length xs"
    using assms(2) by (induction xs) auto
  ultimately show ?thesis by simp
qed

lemma scheduler_detects_cycle:
  assumes wf: "wellFormed ns es"
    and cyc: "\<not> acyclic (set (map (\<lambda>e. (source e, target e)) es))"
  shows "buildExecutionOrder ns es = Inl cycleError"
proof (cases "buildExecutionOrder ns es")
  case (Inl err)
  then show ?thesis
    by (auto simp: buildExecutionOrder_def Let_def split: prod.splits if_splits)
next
  case (Inr order)
  let ?pos = "\<lambda>v. length (takeWhile (\<lambda>x. x \<noteq> v) order)"
  from scheduler_sound [OF wf Inr] have dist: "distinct order"
    and ord: "\<And>e. e \<in> set es \<Longrightarrow> \<exists>xs ys. order = xs @ target e # ys \<and> source e \<in> set xs"
    by blast+
  have "set (map (\<lambda>e. (source e, target e)) es) \<subseteq> measure ?pos"
  proof
    fix p assume "p \<in> set (map (\<lambda>e. (source e, target e)) es)"
    then obtain e where e: "e \<in> set es" and p: "p = (source e, target e)" by auto
    from ord [OF e] obtain xs ys where o: "order = xs @ target e # ys" and s: "source e \<in> set xs"
      by blast
    from dist o have "distinct (xs @ target e # ys)" by simp
    from position_before [OF this s] o p show "p \<in> measure ?pos" by simp
  qed
  then have "wf (set (map (\<lambda>e. (source e, target e)) es))"
    by (rule wf_subset [OF wf_measure])
  then have "acyclic (set (map (\<lambda>e. (source e, target e)) es))" by (rule wf_acyclic)
  with cyc show ?thesis by simp
qed

lemma cycle_error_runs_nothing:
  assumes "wellFormed (nodes ctx) (edges ctx)"
    and "\<not> acyclic (set (map (\<lambda>e. (source e, target e)) (edges ctx)))"
  shows "execute env ctx st =
           (failure ''Workflow contains a cycle. Please check your connections.'',
            st\<lparr>stopped := False, executionData := []\<rparr>)"
  using scheduler_detects_cycle [OF assms]
  by (simp add: execute_def executeBody_def cycleError_def)

section \<open>An empty graph\<close>

text \<open>
  C9. For every graph with zero steps, \<^verbatim>\<open>execute\<close> returns \<^verbatim>\<open>success: false\<close>
  (``No nodes to execute''); the scheduler has produced the empty order, so no handler
  is invoked (the world is untouched) and no callback is issued (the trace is
  unchanged).
\<close>

theorem zero_steps_rejected:
  assumes "nodes ctx = []"
  shows "execute env ctx st =
           (failure ''No nodes to execute. Please add nodes to your workflow.'',
            st\<lparr>stopped := False, executionData := []\<rparr>)
         \<and> \<not> success (fst (execute env ctx st))
         \<and> events (snd (execute env ctx st)) = events st
         \<and> world (snd (execute env ctx st)) = world st"
  using assms
  by (simp add: execute_def executeBody_def buildExecutionOrder_no_nodes failure_def)

theorem zero_steps_rejected_witness:
  "nodes (sampleContext [] [sampleEdge ''A'' ''B'']) = []
   \<and> execute (sampleEnv None) (sampleContext [] [sampleEdge ''A'' ''B'']) sampleExecutor =
       (failure ''No nodes to execute. Please add nodes to your workflow.'',
        sampleExecutor\<lparr>stopped := False, executionData := []\<rparr>)
   \<and> events (snd (execute (sampleEnv None) (sampleContext [] [sampleEdge ''A'' ''B''])
                  sampleExecutor)) = []"
  using zero_steps_rejected
          [of "sampleContext [] [sampleEdge ''A'' ''B'']" "sampleEnv None" sampleExecutor]
  by (simp add: sampleContext_def sampleExecutor_def)

section \<open>The first failure ends the run\<close>



section \<open>Cooperative cancellation\<close>



section \<open>The execution data\<close>



section \<open>Lookup by kind\<close>

text \<open>
  C7, as stated, fails: with two steps of kind \<^verbatim>\<open>contractInput\<close> that both succeeded
  before \<open>T\<close> starts, the lookup made when \<open>T\<close> starts does not return the output of
  the second one.
\<close>

theorem lookup_of_later_step_counterexample:
  "fst (executeLoop (sampleEnv None) twoSourcesContext [''S1'', ''S2'']
          (sampleExecutor\<lparr>stopped := False, executionData := []\<rparr>)) = None
   \<and> buildExecutionOrder (nodes twoSourcesContext) (edges twoSourcesContext)
       = Inr [''S1'', ''S2'', ''T'']
   \<and> kindOf twoSourcesContext ''S2'' = Some ''contractInput''
   \<and> map_of (executionData (snd (executeLoop (sampleEnv None) twoSourcesContext
                [''S1'', ''S2''] (sampleExecutor\<lparr>stopped := False, executionData := []\<rparr>))))
        ''S2'' = Some secondOutput
   \<and> findPreviousData twoSourcesContext
        (executionData (snd (executeLoop (sampleEnv None) twoSourcesContext
                [''S1'', ''S2''] (sampleExecutor\<lparr>stopped := False, executionData := []\<rparr>))))
        ''contractInput'' \<noteq> secondOutput"
  by code_simp

text \<open>
  C7, amended. \<^verbatim>\<open>findPreviousData(K)\<close> returns \<^verbatim>\<open>null\<close> when no recorded entry belongs
  to a step of kind \<open>K\<close>, and otherwise the data of the first such entry in insertion
  order. In a run: when \<open>S\<close> is the first step of kind \<open>K\<close> in the linear order and
  the run has reached a later step \<open>T\<close> (every step before \<open>T\<close> succeeded), the
  lookup of \<open>K\<close> on the execution data \<open>T\<close>'s handler is given returns the output
  recorded and published for \<open>S\<close>.
\<close>

theorem lookup_returns_first_of_kind:
  "((\<forall>(i, v) \<in> set entries. kindOf ctx i \<noteq> Some K) \<longrightarrow>
      findPreviousData ctx entries K = JNull)
   \<and> (kindOf ctx1 S1 = Some K1 \<and> (\<forall>(i, v) \<in> set es1. kindOf ctx1 i \<noteq> Some K1) \<longrightarrow>
      findPreviousData ctx1 (es1 @ (S1, d) # es2) K1 = d)
   \<and> (buildExecutionOrder (nodes ctx2) (edges ctx2) = Inr (pre1 @ S2 # pre2 @ T # post)
      \<and> executeLoop env ctx2 (pre1 @ S2 # pre2) (st\<lparr>stopped := False, executionData := []\<rparr>)
          = (None, stT)
      \<and> kindOf ctx2 S2 = Some K2
      \<and> (\<forall>i \<in> set pre1. kindOf ctx2 i \<noteq> Some K2) \<longrightarrow>
      (\<exists>d. map_of (executionData stT) S2 = Some d
          \<and> OnNodeUpdate S2 (JObj [(''output'', d)]) \<in> set (events stT)
          \<and> findPreviousData ctx2 (executionData stT) K2 = d))"
  using findPreviousData_none [of entries ctx K]
        findPreviousData_first [of ctx1 S1 K1 es1 d es2]
        lookup_in_run [of ctx2 pre1 S2 pre2 T post env st stT K2]
  by blast

theorem lookup_returns_first_of_kind_witness:
  "kindOf pipelineContext ''A'' \<noteq> Some ''compile''
   \<and> findPreviousData pipelineContext [(''A'', JNum 0)] ''compile'' = JNull
   \<and> kindOf pipelineContext ''B'' = Some ''completion''
   \<and> kindOf pipelineContext ''A'' \<noteq> Some ''completion''
   \<and> findPreviousData pipelineContext ([(''A'', JNum 0)] @ (''B'', JNum 1) # [(''C'', JNum 2)])
        ''completion'' = JNum 1
   \<and> buildExecutionOrder (nodes twoSourcesContext) (edges twoSourcesContext)
       = Inr ([] @ ''S1'' # [''S2''] @ ''T'' # [])
   \<and> fst (executeLoop (sampleEnv None) twoSourcesContext ([] @ ''S1'' # [''S2''])
          (sampleExecutor\<lparr>stopped := False, executionData := []\<rparr>)) = None
   \<and> kindOf twoSourcesContext ''S1'' = Some ''contractInput''
   \<and> findPreviousData twoSourcesContext
        (executionData (snd (executeLoop (sampleEnv None) twoSourcesContext
                ([] @ ''S1'' # [''S2''])
                (sampleExecutor\<lparr>stopped := False, executionData := []\<rparr>))))
        ''contractInput'' = firstOutput"
proof -
  let ?run = "executeLoop (sampleEnv None) twoSourcesContext ([] @ ''S1'' # [''S2''])
                (sampleExecutor\<lparr>stopped := False, executionData := []\<rparr>)"
  have a1: "kindOf pipelineContext ''A'' \<noteq> Some ''compile''" by code_simp
  have b1: "kindOf pipelineContext ''B'' = Some ''completion''" by code_simp
  have b2: "kindOf pipelineContext ''A'' \<noteq> Some ''completion''" by code_simp
  have c1: "buildExecutionOrder (nodes twoSourcesContext) (edges twoSourcesContext)
              = Inr ([] @ ''S1'' # [''S2''] @ ''T'' # [])"
    by code_simp
  have c2: "fst ?run = None" by code_simp
  then have c2': "?run = (None, snd ?run)" by (simp add: prod_eq_iff)
  have c3: "kindOf twoSourcesContext ''S1'' = Some ''contractInput''" by code_simp
  have c5: "map_of (executionData (snd ?run)) ''S1'' = Some firstOutput" by code_simp
  from lookup_returns_first_of_kind
         [of "[(''A'', JNum 0)]" pipelineContext "''compile''"
             pipelineContext "''B''" "''completion''" "[(''A'', JNum 0)]" "JNum 1"
             "[(''C'', JNum 2)]"
             twoSourcesContext "[]" "''S1''" "[''S2'']" "''T''" "[]" "sampleEnv None"
             sampleExecutor "snd ?run" "''contractInput''"]
       a1 b1 b2 c1 c2' c3
  have "findPreviousData pipelineContext [(''A'', JNum 0)] ''compile'' = JNull"
    and "findPreviousData pipelineContext ([(''A'', JNum 0)] @ (''B'', JNum 1) # [(''C'', JNum 2)])
           ''completion'' = JNum 1"
    and "\<exists>d. map_of (executionData (snd ?run)) ''S1'' = Some d
            \<and> findPreviousData twoSourcesContext (executionData (snd ?run)) ''contractInput'' = d"
    by simp_all
  with a1 b1 b2 c1 c2 c3 c5 show ?thesis by auto
qed

section \<open>Callbacks and handlers that throw anything: auxiliary facts\<close>

text \<open>
  With callbacks that only return and handlers that throw \<^verbatim>\<open>Error\<close> objects, the
  functions of the general setting compute what those of the sections above compute.
\<close>

lemma callAll_returning: "callAll returning evs st = (None, emit evs st)"
  by (induction evs arbitrary: st) (simp_all add: returning_def emit_def)

lemma dispatch_liftEnv: "dispatch (liftEnv env) ctx node st = liftRun (dispatch env ctx node st)"
  by (simp add: dispatch_def liftEnv_def Let_def settled_def liftRun_def)

lemma liftEnv_sel [simp]:
  "feedbackDelay (liftEnv env) = feedbackDelay env"
  "generateSummary (liftEnv env) = generateSummary env"
  by (simp_all add: liftEnv_def)

lemma liftRun_sel [simp]:
  "updates (liftRun run) = updates run"
  "stopCalled (liftRun run) = stopCalled run"
  "worldAfter (liftRun run) = worldAfter run"
  "outcome (liftRun run) = (case outcome run of Returns r \<Rightarrow> Returns r | Throws e \<Rightarrow> Throws (asThrown e))"
  by (simp_all add: liftRun_def)

lemma executeNode_cb_returning:
  "executeNode_cb returning (liftEnv env) ctx node st =
     (Inr (fst (executeNode env ctx node st)), snd (executeNode env ctx node st))"
  by (simp add: executeNode_cb_def executeNode_def Let_def dispatch_liftEnv callAll_returning
        catchBlock_def asThrown_def reportEvents_def emit_def stopIf_def stop_def
      del: callAll.simps split: outcome.splits)

lemma executeLoop_cb_returning:
  "executeLoop_cb returning (liftEnv env) ctx order st =
     (Inr (fst (executeLoop env ctx order st)), snd (executeLoop env ctx order st))"
  by (induction order arbitrary: st)
     (simp_all add: executeNode_cb_returning split: option.splits prod.splits)

lemma execute_cb_returning:
  "execute_cb returning (liftEnv env) ctx st =
     (Inr (fst (execute env ctx st)), snd (execute env ctx st))"
  by (simp add: execute_cb_def execute_def executeBody_cb_def executeBody_def
        executeLoop_cb_returning
      split: sum.splits option.splits prod.splits)


lemma callAll_thrown:
  "neverNullish cb \<Longrightarrow> callAll cb evs st = (Some t, st') \<Longrightarrow> \<not> nullish t"
proof (induction evs arbitrary: st)
  case Nil
  then show ?case by simp
next
  case (Cons e es)
  show ?case
  proof (cases "cb e (world st)")
    case (Pair r w)
    show ?thesis
    proof (cases r)
      case None
      with Pair Cons.prems(2) Cons.IH [OF Cons.prems(1)] show ?thesis by simp
    next
      case (Some u)
      with Pair Cons.prems(2) have "u = t" by simp
      moreover from Some Pair have "fst (cb e (world st)) = Some u" by simp
      ultimately show ?thesis using Cons.prems(1) by (auto simp: neverNullish_def)
    qed
  qed
qed

lemma readMessage_thrown: "readMessage t = Inl x \<Longrightarrow> \<not> nullish x"
  by (cases t) auto

lemma readMessage_message: "\<not> nullish t \<Longrightarrow> \<exists>m. t = ThrownError m \<and> readMessage t = Inr m"
  by (cases t) auto

lemma catchBlock_thrown:
  "neverNullish cb \<Longrightarrow> catchBlock cb ctx nodeId error st = (Inl t, st') \<Longrightarrow> \<not> nullish t"
  by (auto simp: catchBlock_def simp del: callAll.simps
           split: prod.splits option.splits sum.splits
           dest: callAll_thrown readMessage_thrown)

lemma executeNode_cb_thrown:
  "neverNullish cb \<Longrightarrow> executeNode_cb cb env ctx node st = (Inl t, st') \<Longrightarrow> \<not> nullish t"
  by (auto simp: executeNode_cb_def Let_def simp del: callAll.simps
           split: prod.splits option.splits outcome.splits
           dest: callAll_thrown catchBlock_thrown)

lemma executeLoop_cb_thrown:
  "neverNullish cb \<Longrightarrow> executeLoop_cb cb env ctx order st = (Inl t, st') \<Longrightarrow> \<not> nullish t"
proof (induction order arbitrary: st)
  case Nil
  then show ?case by simp
next
  case (Cons i rest)
  then show ?case
    by (auto split: if_splits option.splits prod.splits sum.splits
             dest: executeNode_cb_thrown)
qed

lemma executeBody_cb_thrown:
  "neverNullish cb \<Longrightarrow> executeBody_cb cb env ctx st = (Inl t, st') \<Longrightarrow> \<not> nullish t"
  by (auto simp: executeBody_cb_def
           split: sum.splits if_splits prod.splits option.splits
           dest: executeLoop_cb_thrown)

lemma execute_cb_resolves:
  assumes "neverNullish cb"
  shows "\<exists>r st'. execute_cb cb env ctx st = (Inr r, st')"
proof (cases "executeBody_cb cb env ctx (st\<lparr>stopped := False, executionData := []\<rparr>)")
  case (Pair x st')
  show ?thesis
  proof (cases x)
    case (Inr r)
    with Pair show ?thesis by (simp add: execute_cb_def)
  next
    case (Inl t)
    with Pair executeBody_cb_thrown [OF assms] have "\<not> nullish t" by blast
    then obtain m where "readMessage t = Inr m" using readMessage_message by blast
    with Pair Inl show ?thesis by (simp add: execute_cb_def)
  qed
qed


lemma typeErrorMessage_nonempty [simp]: "typeErrorMessage v \<noteq> []"
  by (simp add: typeErrorMessage_def)





section \<open>Exceptions at the dispatch boundary\<close>




section \<open>Connections that leave the graph\<close>

text \<open>
  The lemmas \<open>scheduler_sound\<close>, \<open>scheduler_complete\<close> and \<open>scheduler_detects_cycle\<close>
  need every connection to join two steps. The source does not restrict the
  connections it is given (line 106 skips a source that is no step, line 107 counts
  the connection all the same, and line 135 compares lengths only), and on a
  connection with an end that is no step the in-degree bookkeeping goes wrong: the
  in-degree of the target is raised although no step will ever lower it, and a
  target that is no step enters the in-degree map, the queue and the result.
\<close>

text \<open>
  C1, at a failing input. A graph of one step with one connection whose source is
  not a step (and likewise one whose target is not a step) has an empty, hence
  acyclic, restricted connection relation; yet \<^verbatim>\<open>buildExecutionOrder\<close> throws the
  cycle error and \<^verbatim>\<open>execute\<close> returns it, so no step runs.
\<close>

theorem dangling_connection_reported_as_cycle:
  "nodes danglingSourceContext \<noteq> []
   \<and> acyclic (set (connections danglingSourceContext))
   \<and> buildExecutionOrder (nodes danglingSourceContext) (edges danglingSourceContext)
       = Inl cycleError
   \<and> execute (sampleEnv None) danglingSourceContext sampleExecutor
       = (failure ''Workflow contains a cycle. Please check your connections.'', sampleExecutor)
   \<and> nodes danglingTargetContext \<noteq> []
   \<and> acyclic (set (connections danglingTargetContext))
   \<and> buildExecutionOrder (nodes danglingTargetContext) (edges danglingTargetContext)
       = Inl cycleError
   \<and> execute (sampleEnv None) danglingTargetContext sampleExecutor
       = (failure ''Workflow contains a cycle. Please check your connections.'', sampleExecutor)"
proof -
  have "connections danglingSourceContext = []" by code_simp
  moreover have "connections danglingTargetContext = []" by code_simp
  moreover have "nodes danglingSourceContext \<noteq> []" "nodes danglingTargetContext \<noteq> []"
    by (simp_all add: danglingSourceContext_def danglingTargetContext_def sampleContext_def)
  moreover have
    "buildExecutionOrder (nodes danglingSourceContext) (edges danglingSourceContext)
       = Inl cycleError"
    "buildExecutionOrder (nodes danglingTargetContext) (edges danglingTargetContext)
       = Inl cycleError"
    by code_simp+
  moreover have
    "execute (sampleEnv None) danglingSourceContext sampleExecutor
       = (failure ''Workflow contains a cycle. Please check your connections.'', sampleExecutor)"
    "execute (sampleEnv None) danglingTargetContext sampleExecutor
       = (failure ''Workflow contains a cycle. Please check your connections.'', sampleExecutor)"
    by code_simp+
  ultimately show ?thesis by (simp add: acyclic_def)
qed

text \<open>
  C2, at a failing input. Steps \<open>A\<close> and \<open>B\<close> with the connection \<open>A \<rightarrow> B\<close> and a
  second connection into \<open>B\<close> from an id that is no step: the restricted relation is
  the single pair \<open>(A, B)\<close>, acyclic, and \<open>[A, B]\<close> is a linear order of the steps; yet
  \<^verbatim>\<open>buildExecutionOrder\<close> returns no order, it throws the cycle error.
\<close>

theorem no_order_despite_valid_linear_order:
  "acyclic (set (connections sharedTargetContext))
   \<and> connections sharedTargetContext = [(''A'', ''B'')]
   \<and> stepIds sharedTargetContext = [''A'', ''B'']
   \<and> buildExecutionOrder (nodes sharedTargetContext) (edges sharedTargetContext)
       = Inl cycleError"
proof -
  have c: "connections sharedTargetContext = [(''A'', ''B'')]" by code_simp
  have "acyclic ({} :: (string \<times> string) set)" by (simp add: acyclic_def)
  then have "acyclic (set [(''A'', ''B'')])" by simp
  moreover have "stepIds sharedTargetContext = [''A'', ''B'']" by code_simp
  moreover have "buildExecutionOrder (nodes sharedTargetContext) (edges sharedTargetContext)
       = Inl cycleError"
    by code_simp
  ultimately show ?thesis using c by simp
qed

text \<open>
  C3, at a failing input. Steps \<open>B\<close> and \<open>C\<close> are connected in both directions, a
  cycle among the steps, and step \<open>A\<close> has connections to two ids that are no steps.
  The scheduler counts those two ids in the order it returns, which is as long as
  the list of steps; the length test passes, and \<^verbatim>\<open>execute\<close> runs \<open>A\<close>'s handler and
  reports success.
\<close>

theorem cycle_masked_by_dangling_target:
  "\<not> acyclic (set (connections maskedCycleContext))
   \<and> buildExecutionOrder (nodes maskedCycleContext) (edges maskedCycleContext)
       = Inr [''A'', ''X'', ''Y'']
   \<and> success (fst (execute (sampleEnv None) maskedCycleContext sampleExecutor))
   \<and> statuses (events (snd (execute (sampleEnv None) maskedCycleContext sampleExecutor)))
       = [(''A'', Running), (''A'', Success)]
   \<and> world (snd (execute (sampleEnv None) maskedCycleContext sampleExecutor)) = 1"
proof -
  have c: "connections maskedCycleContext = [(''B'', ''C''), (''C'', ''B'')]" by code_simp
  have "(''B'', ''C'') \<in> (set (connections maskedCycleContext))\<^sup>+"
    unfolding c by (rule r_into_trancl) simp
  moreover have "(''C'', ''B'') \<in> set (connections maskedCycleContext)"
    unfolding c by simp
  ultimately have "(''B'', ''B'') \<in> (set (connections maskedCycleContext))\<^sup>+"
    by (rule trancl_into_trancl)
  then have "\<not> acyclic (set (connections maskedCycleContext))"
    by (auto simp: acyclic_def)
  moreover have "buildExecutionOrder (nodes maskedCycleContext) (edges maskedCycleContext)
       = Inr [''A'', ''X'', ''Y'']"
    by code_simp
  moreover have "success (fst (execute (sampleEnv None) maskedCycleContext sampleExecutor))"
    by code_simp
  moreover have
    "statuses (events (snd (execute (sampleEnv None) maskedCycleContext sampleExecutor)))
       = [(''A'', Running), (''A'', Success)]"
    by code_simp
  moreover have "world (snd (execute (sampleEnv None) maskedCycleContext sampleExecutor)) = 1"
    by code_simp
  ultimately show ?thesis by simp
qed

section \<open>A validated source has a name\<close>

text \<open>
  C10. Whenever \<^verbatim>\<open>validateSolidityCode\<close> accepts a source text,
  \<^verbatim>\<open>extractContractName\<close> on that text returns a name, and a non-empty one. On a node
  whose code is accepted and which has no name of its own (absent or empty),
  \<^verbatim>\<open>executeContractInput\<close> derives the name from the source: it succeeds with
  \<^verbatim>\<open>Contract code validated\<close>, its data are the code and the extracted name, and it
  publishes that name with one \<^verbatim>\<open>onNodeUpdate\<close>. And on no node at all does
  \<^verbatim>\<open>executeContractInput\<close> return its failure
  \<^verbatim>\<open>Could not extract contract name. Please specify it manually.\<close>
\<close>

theorem validated_source_has_a_name:
  "(valid (validateSolidityCode sourceCode) \<longrightarrow>
      (\<exists>name. extractContractName sourceCode = Some name \<and> name \<noteq> []))
   \<and> (contractCode (data_n node) = Some code \<and> valid (validateSolidityCode code)
        \<and> falsy (contractName (data_n node))
      \<longrightarrow> (\<exists>name. extractContractName code = Some name \<and> name \<noteq> []
             \<and> executeContractInput node =
                 (\<lparr>success = True, message = ''Contract code validated'',
                   data = JObj [(''contractCode'', JStr code), (''contractName'', JStr name)]\<rparr>,
                  [JObj [(''contractName'', JStr name)]])))
   \<and> message (fst (executeContractInput node))
       \<noteq> ''Could not extract contract name. Please specify it manually.''"
proof (intro conjI)
  show "valid (validateSolidityCode sourceCode) \<longrightarrow>
      (\<exists>name. extractContractName sourceCode = Some name \<and> name \<noteq> [])"
    using extractContractName_nonempty [OF valid_has_definition] by blast
next
  show "contractCode (data_n node) = Some code \<and> valid (validateSolidityCode code)
        \<and> falsy (contractName (data_n node))
      \<longrightarrow> (\<exists>name. extractContractName code = Some name \<and> name \<noteq> []
             \<and> executeContractInput node =
                 (\<lparr>success = True, message = ''Contract code validated'',
                   data = JObj [(''contractCode'', JStr code), (''contractName'', JStr name)]\<rparr>,
                  [JObj [(''contractName'', JStr name)]]))"
  proof
    assume a: "contractCode (data_n node) = Some code \<and> valid (validateSolidityCode code)
        \<and> falsy (contractName (data_n node))"
    then have v: "valid (validateSolidityCode code)" by blast
    from extractContractName_nonempty [OF valid_has_definition [OF v]]
    obtain name where n: "extractContractName code = Some name" "name \<noteq> []" by blast
    then have nf: "\<not> falsy (extractContractName code)" by (simp add: falsy_def)
    from v have ne: "code \<noteq> []" by (auto simp: validateSolidityCode_def)
    from a v n nf ne have "executeContractInput node =
                 (\<lparr>success = True, message = ''Contract code validated'',
                   data = JObj [(''contractCode'', JStr code), (''contractName'', JStr name)]\<rparr>,
                  [JObj [(''contractName'', JStr name)]])"
      by (simp add: executeContractInput_def Let_def)
    with n show "\<exists>name. extractContractName code = Some name \<and> name \<noteq> []
             \<and> executeContractInput node =
                 (\<lparr>success = True, message = ''Contract code validated'',
                   data = JObj [(''contractCode'', JStr code), (''contractName'', JStr name)]\<rparr>,
                  [JObj [(''contractName'', JStr name)]])"
      by blast
  qed
next
  let ?m = "''Could not extract contract name. Please specify it manually.''"
  show "message (fst (executeContractInput node)) \<noteq> ?m"
  proof (cases "contractCode (data_n node)")
    case None
    then show ?thesis by (simp add: executeContractInput_def failure_def)
  next
    case (Some code)
    show ?thesis
    proof (cases "code = []")
      case True
      with Some show ?thesis by (simp add: executeContractInput_def failure_def)
    next
      case False
      show ?thesis
      proof (cases "valid (validateSolidityCode code)")
        case True
        from extractContractName_nonempty [OF valid_has_definition [OF True]]
        have "\<not> falsy (extractContractName code)" by (auto simp: falsy_def)
        with Some False True show ?thesis
          by (simp add: executeContractInput_def Let_def)
      next
        case invalid: False
        then have "message_v (validateSolidityCode code) \<in>
            {Some ''Source code is empty'',
             Some ''Missing \"pragma solidity\" directive. Please specify Solidity version.'',
             Some ''No contract, interface, or library definition found''}"
          by (auto simp: validateSolidityCode_def split: if_splits)
        then have "(if falsy (message_v (validateSolidityCode code)) then ''Invalid Solidity code''
                    else the (message_v (validateSolidityCode code))) \<noteq> ?m"
          by (auto simp: falsy_def)
        with Some False invalid show ?thesis
          by (simp add: executeContractInput_def Let_def failure_def)
      qed
    qed
  qed
qed

theorem validated_source_has_a_name_witness:
  "valid (validateSolidityCode ''pragma solidity ^0.8.0; contract First {}'')
   \<and> extractContractName ''pragma solidity ^0.8.0; contract First {}'' = Some ''First''
   \<and> (\<exists>name. extractContractName ''pragma solidity ^0.8.0; contract First {}'' = Some name
         \<and> name \<noteq> [])
   \<and> contractCode (data_n (sourceNode ''S1'' ''pragma solidity ^0.8.0; contract First {}''))
       = Some ''pragma solidity ^0.8.0; contract First {}''
   \<and> falsy (contractName (data_n (sourceNode ''S1'' ''pragma solidity ^0.8.0; contract First {}'')))
   \<and> executeContractInput (sourceNode ''S1'' ''pragma solidity ^0.8.0; contract First {}'')
       = (\<lparr>success = True, message = ''Contract code validated'',
           data = JObj [(''contractCode'', JStr ''pragma solidity ^0.8.0; contract First {}''),
                        (''contractName'', JStr ''First'')]\<rparr>,
          [JObj [(''contractName'', JStr ''First'')]])"
proof -
  let ?code = "''pragma solidity ^0.8.0; contract First {}''"
  let ?node = "sourceNode ''S1'' ?code"
  have v: "valid (validateSolidityCode ?code)"
    by code_simp
  have e: "extractContractName ?code = Some ''First''"
    by code_simp
  have c: "contractCode (data_n ?node) = Some ?code"
    by (simp add: sourceNode_def)
  have f: "falsy (contractName (data_n ?node))"
    by (simp add: sourceNode_def falsy_def)
  from validated_source_has_a_name [of ?code ?node ?code] v e c f
  show ?thesis by auto
qed

end
